theory Spec2Isabelle
  imports Complex_Main "HOL-Library.Multiset" "HOL-Library.AList"
begin

section \<open>Conventions of the embedding\<close>

text \<open>
  The repository is Python. Its strings are modelled as HOL strings whose characters are
  the code points 0 to 255; the character classes below are those of Python 3 on that
  range (\<open>str.isspace\<close>, \<open>str.isupper\<close>, \<open>str.isdigit\<close>, \<open>str.lower\<close>, the regular
  expression classes \<open>\s\<close> and \<open>\d\<close>, and the line boundaries of \<open>str.splitlines\<close>).
  Python floats are modelled as real numbers, with no rounding, overflow or NaN, except
  for \<open>_cosine_similarity\<close>, which is also modelled in double precision, because what the
  spec says of it does not survive rounding. Every
  \<open>raise\<close> of the source, and every operation of Python that can raise on the values it
  meets (\<open>/\<close> on a zero divisor, \<open>math.log\<close>, \<open>math.sqrt\<close>), is a branch that returns
  \<open>Inl\<close> of an error; dictionaries are association lists in insertion order.
\<close>

datatype error = ValueError | RuntimeError | ZeroDivisionError | IndexError

definition bind_r :: "error + 'a \<Rightarrow> ('a \<Rightarrow> error + 'b) \<Rightarrow> error + 'b" where
  "bind_r m f = (case m of Inl e \<Rightarrow> Inl e | Inr x \<Rightarrow> f x)"

definition py_div :: "real \<Rightarrow> real \<Rightarrow> error + real" where
  "py_div a b = (if b = 0 then Inl ZeroDivisionError else Inr (a / b))"

definition py_log :: "real \<Rightarrow> error + real" where
  "py_log x = (if x \<le> 0 then Inl ValueError else Inr (ln x))"

definition py_sqrt :: "real \<Rightarrow> error + real" where
  "py_sqrt x = (if x < 0 then Inl ValueError else Inr (sqrt x))"

definition py_max :: "'a::linorder list \<Rightarrow> error + 'a" where
  "py_max xs = (case xs of [] \<Rightarrow> Inl ValueError | x # rest \<Rightarrow> Inr (fold max rest x))"

definition py_min :: "'a::linorder list \<Rightarrow> error + 'a" where
  "py_min xs = (case xs of [] \<Rightarrow> Inl ValueError | x # rest \<Rightarrow> Inr (fold min rest x))"

definition py_index :: "'a list \<Rightarrow> nat \<Rightarrow> error + 'a" where
  "py_index xs i = (if i < length xs then Inr (xs ! i) else Inl IndexError)"

text \<open>A list comprehension whose body can raise: the first failure, from the left, is
  the result.\<close>

fun traverse :: "('a \<Rightarrow> error + 'b) \<Rightarrow> 'a list \<Rightarrow> error + 'b list" where
  "traverse f [] = Inr []"
| "traverse f (x # xs) = bind_r (f x) (\<lambda>y. bind_r (traverse f xs) (\<lambda>ys. Inr (y # ys)))"

text \<open>\<open>d.get(k, default)\<close> on a dictionary; \<open>d[k] = v\<close> is \<open>AList.update k v d\<close>, which
  replaces the value of a present key in place and appends a new key at the end.\<close>

definition dict_get :: "('k \<times> 'v) list \<Rightarrow> 'k \<Rightarrow> 'v \<Rightarrow> 'v" where
  "dict_get d k dflt = (case map_of d k of None \<Rightarrow> dflt | Some v \<Rightarrow> v)"

text \<open>\<open>list.sort(key=..., reverse=True)\<close>: CPython reverses the list, sorts it with its
  stable sort, and reverses the result.\<close>

definition sort_desc :: "('a \<Rightarrow> 'k::linorder) \<Rightarrow> 'a list \<Rightarrow> 'a list" where
  "sort_desc key xs = rev (sort_key key (rev xs))"

text \<open>The slice \<open>xs[:n]\<close>; a negative \<open>n\<close> counts from the end.\<close>

definition py_take :: "int \<Rightarrow> 'a list \<Rightarrow> 'a list" where
  "py_take n xs = (if 0 \<le> n then take (nat n) xs else take (length xs - nat (- n)) xs)"

section \<open>Characters and strings\<close>

definition code_point :: "char \<Rightarrow> nat" where
  "code_point c = of_char c"

definition is_space :: "char \<Rightarrow> bool" where
  "is_space c = (let n = code_point c in
     (9 \<le> n \<and> n \<le> 13) \<or> (28 \<le> n \<and> n \<le> 32) \<or> n = 133 \<or> n = 160)"

definition is_line_boundary :: "char \<Rightarrow> bool" where
  "is_line_boundary c = (let n = code_point c in
     (10 \<le> n \<and> n \<le> 13) \<or> (28 \<le> n \<and> n \<le> 30) \<or> n = 133)"

definition is_decimal :: "char \<Rightarrow> bool" where
  "is_decimal c = (let n = code_point c in 48 \<le> n \<and> n \<le> 57)"

definition is_digit :: "char \<Rightarrow> bool" where
  "is_digit c = (let n = code_point c in
     (48 \<le> n \<and> n \<le> 57) \<or> n = 178 \<or> n = 179 \<or> n = 185)"

definition is_ascii_upper :: "char \<Rightarrow> bool" where
  "is_ascii_upper c = (let n = code_point c in 65 \<le> n \<and> n \<le> 90)"

definition is_ascii_lower :: "char \<Rightarrow> bool" where
  "is_ascii_lower c = (let n = code_point c in 97 \<le> n \<and> n \<le> 122)"

definition is_upper :: "char \<Rightarrow> bool" where
  "is_upper c = (let n = code_point c in
     (65 \<le> n \<and> n \<le> 90) \<or> (192 \<le> n \<and> n \<le> 214) \<or> (216 \<le> n \<and> n \<le> 222))"

definition is_lower :: "char \<Rightarrow> bool" where
  "is_lower c = (let n = code_point c in
     (97 \<le> n \<and> n \<le> 122) \<or> n = 170 \<or> n = 181 \<or> n = 186
       \<or> (223 \<le> n \<and> n \<le> 246) \<or> (248 \<le> n \<and> n \<le> 255))"

definition lower_char :: "char \<Rightarrow> char" where
  "lower_char c = (if is_upper c then char_of (code_point c + 32) else c)"

definition str_lower :: "string \<Rightarrow> string" where
  "str_lower s = map lower_char s"

definition str_isupper :: "string \<Rightarrow> bool" where
  "str_isupper s = (list_ex is_upper s \<and> \<not> list_ex is_lower s)"

definition str_strip :: "string \<Rightarrow> string" where
  "str_strip s = rev (dropWhile is_space (rev (dropWhile is_space s)))"

fun split_from :: "string \<Rightarrow> string \<Rightarrow> string list" where
  "split_from cur [] = (if cur = [] then [] else [rev cur])"
| "split_from cur (c # cs) =
     (if is_space c then (if cur = [] then split_from [] cs else rev cur # split_from [] cs)
      else split_from (c # cur) cs)"

definition str_split :: "string \<Rightarrow> string list" where
  "str_split s = split_from [] s"

fun splitlines_from :: "string \<Rightarrow> string \<Rightarrow> string list" where
  "splitlines_from cur [] = (if cur = [] then [] else [rev cur])"
| "splitlines_from cur [c] =
     (if is_line_boundary c then [rev cur] else [rev (c # cur)])"
| "splitlines_from cur (c # d # cs) =
     (if code_point c = 13 \<and> code_point d = 10 then rev cur # splitlines_from [] cs
      else if is_line_boundary c then rev cur # splitlines_from [] (d # cs)
      else splitlines_from (c # cur) (d # cs))"

definition str_splitlines :: "string \<Rightarrow> string list" where
  "str_splitlines s = splitlines_from [] s"

fun str_join :: "string \<Rightarrow> string list \<Rightarrow> string" where
  "str_join sep [] = []"
| "str_join sep [x] = x"
| "str_join sep (x # y # ys) = x @ sep @ str_join sep (y # ys)"

definition endswith :: "string \<Rightarrow> string \<Rightarrow> bool" where
  "endswith s suf = (length suf \<le> length s \<and> drop (length s - length suf) s = suf)"

function str_of_nat :: "nat \<Rightarrow> string" where
  "str_of_nat n =
     (if n < 10 then [char_of (48 + n)] else str_of_nat (n div 10) @ [char_of (48 + n mod 10)])"
  by pat_completeness auto
termination
  by (relation "measure id") auto

definition str_of_int :: "int \<Rightarrow> string" where
  "str_of_int i = (if i < 0 then CHR ''-'' # str_of_nat (nat (- i)) else str_of_nat (nat i))"

section \<open>Segmenter: \<open>pdf_processor.py\<close>\<close>

subsection \<open>The heading heuristic \<open>_is_heading\<close>\<close>

text \<open>
  The enumeration pattern is the regular expression
  \<^verbatim>\<open>^(\d+\.\d*|\d+|[A-Z])\.\s\<close>, matched at the start of the stripped line. Each
  function below returns every remainder that a part of the expression can leave, so that
  the match succeeds when some remainder of the group starts with a period and a
  whitespace character, which is what the backtracking matcher decides.
\<close>

definition rests_digits_plus :: "string \<Rightarrow> string list" where
  "rests_digits_plus s = map (\<lambda>k. drop k s) [1..<Suc (length (takeWhile is_decimal s))]"

definition rests_digits_star :: "string \<Rightarrow> string list" where
  "rests_digits_star s = map (\<lambda>k. drop k s) [0..<Suc (length (takeWhile is_decimal s))]"

definition rests_period :: "string \<Rightarrow> string list" where
  "rests_period s = (case s of [] \<Rightarrow> [] | c # r \<Rightarrow> if c = CHR ''.'' then [r] else [])"

definition rests_label :: "string \<Rightarrow> string list" where
  "rests_label s =
     concat (map rests_digits_star (concat (map rests_period (rests_digits_plus s))))
     @ rests_digits_plus s
     @ (case s of [] \<Rightarrow> [] | c # r \<Rightarrow> if is_ascii_upper c then [r] else [])"

definition period_space :: "string \<Rightarrow> bool" where
  "period_space s = (case s of c # w # r \<Rightarrow> c = CHR ''.'' \<and> is_space w | _ \<Rightarrow> False)"

definition enumeration_match :: "string \<Rightarrow> bool" where
  "enumeration_match s = list_ex period_space (rests_label s)"

definition is_heading :: "string \<Rightarrow> error + bool" where
  "is_heading line =
     (let txt = str_strip line in
      if txt = [] then Inr False
      else if length txt > 100 then Inr False
      else
        let words = str_split txt in
        if length words > 15 then Inr False
        else if enumeration_match txt then Inr True
        else
          let cap_count = length (filter (\<lambda>w. w \<noteq> [] \<and> (is_upper (hd w) \<or> is_digit (hd w))) words) in
          bind_r (py_div (real cap_count) (real (length words))) (\<lambda>ratio.
            if ratio \<ge> 6 / 10 then Inr True
            else
              let letters_only = filter (\<lambda>c. is_ascii_upper c \<or> is_ascii_lower c) txt in
              if letters_only \<noteq> [] \<and> str_isupper letters_only then Inr True
              else Inr False))"

subsection \<open>Grouping lines into sections: \<open>parse_pdf\<close>\<close>

record sect =
  section_title :: string
  section_text :: string
  page_number :: int

text \<open>The loop over the lines of one page; its state is the open title, the body lines
  collected for it and the sections appended so far.\<close>

fun group_lines ::
  "int \<Rightarrow> string list \<Rightarrow> string option \<Rightarrow> string list \<Rightarrow> sect list
     \<Rightarrow> error + (string option \<times> string list \<times> sect list)" where
  "group_lines page_num [] current_title current_lines sections =
     Inr (current_title, current_lines, sections)"
| "group_lines page_num (line # lines) current_title current_lines sections =
     bind_r (is_heading line) (\<lambda>h.
       if h then
         group_lines page_num lines (Some line) []
           (case current_title of
              None \<Rightarrow> sections
            | Some t \<Rightarrow> sections @
                [\<lparr>section_title = t,
                  section_text = str_strip (str_join '' '' current_lines),
                  page_number = page_num\<rparr>])
       else group_lines page_num lines current_title (current_lines @ [line]) sections)"

definition page_lines :: "string \<Rightarrow> string list" where
  "page_lines page_text =
     map str_strip (filter (\<lambda>ln. str_strip ln \<noteq> []) (str_splitlines page_text))"

text \<open>The body of the loop over the pages, for a page whose text was extracted.\<close>

definition process_page :: "int \<Rightarrow> string \<Rightarrow> sect list \<Rightarrow> error + sect list" where
  "process_page page_num page_text sections =
     (let lines = page_lines page_text in
      bind_r (group_lines page_num lines None [] sections) (\<lambda>(current_title, current_lines, sections').
        if current_title \<noteq> None \<and> current_lines \<noteq> [] then
          Inr (sections' @
            [\<lparr>section_title = the current_title,
              section_text = str_strip (str_join '' '' current_lines),
              page_number = page_num\<rparr>])
        else if current_title = None \<and> lines \<noteq> [] then
          Inr (sections' @
            [\<lparr>section_title = ''Page '' @ str_of_int page_num,
              section_text = str_strip (str_join '' '' lines),
              page_number = page_num\<rparr>])
        else Inr sections'))"

text \<open>
  The external collaborators: \<open>os.path.exists\<close>, \<open>_run_pdfinfo\<close> and
  \<open>_run_pdftotext_page\<close>. The two wrappers turn every failure into a \<open>RuntimeError\<close>,
  which is the value \<open>None\<close> here. Each call made to them is recorded in a log.
\<close>

record pdf_env =
  path_exists :: "string \<Rightarrow> bool"
  run_pdfinfo :: "string \<Rightarrow> int option"
  run_pdftotext_page :: "string \<Rightarrow> int \<Rightarrow> string option"

datatype call = PdfInfo string | PdfToText string int

fun parse_pages ::
  "pdf_env \<Rightarrow> string \<Rightarrow> int list \<Rightarrow> sect list \<Rightarrow> call list
     \<Rightarrow> (error + sect list) \<times> call list" where
  "parse_pages env filepath [] sections calls = (Inr sections, calls)"
| "parse_pages env filepath (page_num # rest) sections calls =
     (case run_pdftotext_page env filepath page_num of
        None \<Rightarrow> parse_pages env filepath rest sections (calls @ [PdfToText filepath page_num])
      | Some page_text \<Rightarrow>
          (case process_page page_num page_text sections of
             Inl e \<Rightarrow> (Inl e, calls @ [PdfToText filepath page_num])
           | Inr sections' \<Rightarrow>
               parse_pages env filepath rest sections' (calls @ [PdfToText filepath page_num])))"

definition parse_pdf :: "pdf_env \<Rightarrow> string \<Rightarrow> (error + sect list) \<times> call list" where
  "parse_pdf env filepath =
     (if \<not> path_exists env filepath \<or> \<not> endswith (str_lower filepath) ''.pdf''
      then (Inl ValueError, [])
      else
        (case run_pdfinfo env filepath of
           None \<Rightarrow> (Inl RuntimeError, [PdfInfo filepath])
         | Some num_pages \<Rightarrow> parse_pages env filepath [1..num_pages] [] [PdfInfo filepath]))"

section \<open>Relevance Scorer: \<open>content_analyzer.py\<close>\<close>

text \<open>
  A section as the ranker receives it: the Segmenter's dictionary with the \<open>document\<close>
  key that the caller adds. The persona and job dictionaries may lack a key, which
  \<open>.get(key, "")\<close> reads as the empty string.
\<close>

record doc_sect = sect +
  document :: string

record persona =
  role :: "string option"
  description :: "string option"

record job =
  task :: "string option"

definition get_str :: "string option \<Rightarrow> string" where
  "get_str v = (case v of None \<Rightarrow> [] | Some s \<Rightarrow> s)"

definition WEIGHT_SEMANTIC :: real where "WEIGHT_SEMANTIC = 40 / 100"
definition WEIGHT_PERSONA :: real where "WEIGHT_PERSONA = 25 / 100"
definition WEIGHT_ACTION :: real where "WEIGHT_ACTION = 20 / 100"
definition WEIGHT_CROSS_DOC :: real where "WEIGHT_CROSS_DOC = 15 / 100"

definition ACTION_VERBS :: "string list" where
  "ACTION_VERBS =
     [''create'', ''design'', ''develop'', ''optimize'', ''optimise'',
      ''evaluate'', ''analyze'', ''analyse'', ''build'', ''identify'', ''summarize'',
      ''summarise'', ''implement'', ''compare'', ''assess'', ''improve'', ''discover'',
      ''predict'', ''plan'', ''execute'', ''monitor'', ''measure'']"

text \<open>\<^verbatim>\<open>re.sub(r"[^a-zA-Z0-9\s]", " ", text.lower())\<close>\<close>

definition clean_text :: "string \<Rightarrow> string" where
  "clean_text txt =
     map (\<lambda>c. if is_ascii_lower c \<or> is_ascii_upper c \<or> is_decimal c \<or> is_space c
              then c else CHR '' '')
       (str_lower txt)"

definition tokenize :: "string \<Rightarrow> string list" where
  "tokenize txt = str_split (clean_text txt)"

text \<open>\<open>Counter(words)\<close>: the keys in order of first occurrence.\<close>

definition counter :: "string list \<Rightarrow> (string \<times> nat) list" where
  "counter words = fold (\<lambda>w counts. AList.update w (dict_get counts w 0 + 1) counts) words []"

definition compute_tf :: "string list \<Rightarrow> error + (string \<times> real) list" where
  "compute_tf words =
     (if words = [] then Inr []
      else
        let counts = counter words; total = length words in
        traverse (\<lambda>(w, c). bind_r (py_div (real c) (real total)) (\<lambda>q. Inr (w, q))) counts)"

text \<open>The loop that counts the documents holding each token. Python iterates over
  \<open>set(tokens)\<close> in an order the language leaves open; the model takes the order of
  \<open>remdups\<close>, and only lookups read the resulting dictionary.\<close>

definition count_docs :: "string list list \<Rightarrow> (string \<times> nat) list" where
  "count_docs doc_tokens =
     fold (\<lambda>tokens doc_counts.
             fold (\<lambda>token dc. AList.update token (dict_get dc token 0 + 1) dc)
               (remdups tokens) doc_counts)
       doc_tokens []"

definition compute_idf :: "string list list \<Rightarrow> error + (string \<times> real) list" where
  "compute_idf doc_tokens =
     (let total_docs = length doc_tokens in
      traverse (\<lambda>(token, doc_count).
          bind_r (py_div (real (1 + total_docs)) (real (1 + doc_count))) (\<lambda>q.
          bind_r (py_log q) (\<lambda>l. Inr (token, l + 1))))
        (count_docs doc_tokens))"

definition compute_tfidf_vector ::
  "(string \<times> real) list \<Rightarrow> (string \<times> real) list \<Rightarrow> (string \<times> real) list" where
  "compute_tfidf_vector tf idf = map (\<lambda>(word, tf_val). (word, tf_val * dict_get idf word 0)) tf"

text \<open>A Python dictionary holds each key once; a term vector is a dictionary from
  terms to weights that are not negative.\<close>

definition is_dict :: "('k \<times> 'v) list \<Rightarrow> bool" where
  "is_dict d = distinct (map fst d)"

definition term_vector :: "(string \<times> real) list \<Rightarrow> bool" where
  "term_vector v = (is_dict v \<and> list_all (\<lambda>(w, x). 0 \<le> x) v)"

definition cosine_similarity ::
  "(string \<times> real) list \<Rightarrow> (string \<times> real) list \<Rightarrow> error + real" where
  "cosine_similarity vec1 vec2 =
     (if vec1 = [] \<or> vec2 = [] then Inr 0
      else
        let dot =
          (if length vec1 < length vec2
           then fold (\<lambda>(word, val) dot. dot + val * dict_get vec2 word 0) vec1 0
           else fold (\<lambda>(word, val) dot. dot + val * dict_get vec1 word 0) vec2 0)
        in
        bind_r (py_sqrt (sum_list (map (\<lambda>v. v * v) (map snd vec1)))) (\<lambda>norm1.
        bind_r (py_sqrt (sum_list (map (\<lambda>v. v * v) (map snd vec2)))) (\<lambda>norm2.
          if norm1 = 0 \<or> norm2 = 0 then Inr 0
          else py_div dot (norm1 * norm2))))"

definition compute_semantic_similarity :: "doc_sect list \<Rightarrow> string \<Rightarrow> error + real list" where
  "compute_semantic_similarity sections query =
     (let section_tokens = map (\<lambda>sec. tokenize (section_text sec)) sections;
          query_tokens = tokenize query in
      bind_r (compute_idf (query_tokens # section_tokens)) (\<lambda>idf.
      bind_r (compute_tf query_tokens) (\<lambda>query_tf.
        let query_vec = compute_tfidf_vector query_tf idf in
        traverse (\<lambda>tokens.
            bind_r (compute_tf tokens) (\<lambda>tf.
              cosine_similarity (compute_tfidf_vector tf idf) query_vec))
          section_tokens)))"

definition compute_persona_match :: "doc_sect list \<Rightarrow> string \<Rightarrow> error + real list" where
  "compute_persona_match sections persona_role =
     (let persona_words = set (str_split (clean_text persona_role)) in
      traverse (\<lambda>sec.
          let sec_words = set (str_split (clean_text (section_text sec))) in
          if persona_words = {} \<or> sec_words = {} then Inr 0
          else py_div (real (card (persona_words \<inter> sec_words))) (real (card persona_words)))
        sections)"

definition compute_actionability :: "doc_sect list \<Rightarrow> error + real list" where
  "compute_actionability sections =
     traverse (\<lambda>sec.
         let words = str_split (clean_text (section_text sec)) in
         if words = [] then Inr 0
         else
           let action_count = length (filter (\<lambda>w. w \<in> set ACTION_VERBS) words) in
           py_div (real action_count) (real (length words)))
       sections"

definition title_docs :: "doc_sect list \<Rightarrow> (string \<times> string set) list" where
  "title_docs sections =
     fold (\<lambda>sec title_counts.
             AList.update (section_title sec)
               (insert (document sec) (dict_get title_counts (section_title sec) {}))
               title_counts)
       sections []"

definition compute_cross_document_importance :: "doc_sect list \<Rightarrow> error + real list" where
  "compute_cross_document_importance sections =
     (let freq_map = map (\<lambda>(title, docs). (title, card docs)) (title_docs sections) in
      bind_r (if freq_map \<noteq> [] then py_max (map snd freq_map) else Inr 1) (\<lambda>max_freq.
        traverse (\<lambda>sec.
            let freq = dict_get freq_map (section_title sec) 1 in
            py_div (real freq) (real max_freq))
          sections))"

definition normalise :: "real list \<Rightarrow> error + real list" where
  "normalise arr =
     (if arr = [] then Inr arr
      else
        bind_r (py_max arr) (\<lambda>max_val.
        bind_r (py_min arr) (\<lambda>min_val.
          if max_val = min_val then Inr (map (\<lambda>x. 0) arr)
          else traverse (\<lambda>x. py_div (x - min_val) (max_val - min_val)) arr)))"

definition compute_relevance_scores ::
  "doc_sect list \<Rightarrow> persona \<Rightarrow> job \<Rightarrow> error + real list" where
  "compute_relevance_scores sections pers jb =
     (let persona_role = get_str (role pers);
          persona_desc = get_str (description pers);
          job_task = get_str (task jb);
          query = str_strip (persona_role @ '' '' @ persona_desc @ '' '' @ job_task) in
      bind_r (compute_semantic_similarity sections query) (\<lambda>semantic.
      bind_r (compute_persona_match sections (persona_role @ '' '' @ persona_desc)) (\<lambda>persona_match_scores.
      bind_r (compute_actionability sections) (\<lambda>actionability_scores.
      bind_r (compute_cross_document_importance sections) (\<lambda>cross_doc_scores.
      bind_r (normalise semantic) (\<lambda>sem_norm.
      bind_r (normalise persona_match_scores) (\<lambda>pers_norm.
      bind_r (normalise actionability_scores) (\<lambda>act_norm.
      bind_r (normalise cross_doc_scores) (\<lambda>cross_norm.
        traverse (\<lambda>i.
            bind_r (py_index sem_norm i) (\<lambda>s.
            bind_r (py_index pers_norm i) (\<lambda>p.
            bind_r (py_index act_norm i) (\<lambda>a.
            bind_r (py_index cross_norm i) (\<lambda>c.
              Inr (WEIGHT_SEMANTIC * s + WEIGHT_PERSONA * p
                   + WEIGHT_ACTION * a + WEIGHT_CROSS_DOC * c))))))
          [0..<length sections])))))))))"

subsection \<open>\<open>_cosine_similarity\<close> in double precision\<close>

text \<open>
  Symmetry and the bound 1 depend on how the dot product and the norms are rounded, so
  lines 72 to 90 are transcribed a second time, with the arithmetic of Python floats:
  IEEE 754 binary64, each operation rounded to nearest, ties to even. A double is a real
  number, an infinity or NaN. The two zeros are one value: \<open>==\<close> equates them, division
  by either raises, and no operation used here tells them apart. \<open>round64\<close> is the
  rounding: the value is divided by the unit in the last place of its binade (the
  exponent is at least \<open>-1022\<close>, so the unit is at least \<open>2\<^sup>-\<^sup>1\<^sup>0\<^sup>7\<^sup>4\<close>), rounded to an
  integer with ties to even, and scaled back; a result of magnitude \<open>2\<^sup>1\<^sup>0\<^sup>2\<^sup>4\<close> or more is an
  infinity. The reals \<open>x\<close> with \<open>round64 x = Finite x\<close> are the doubles.

  \<open>+\<close> and \<open>*\<close> never raise; \<open>/\<close> raises \<open>ZeroDivisionError\<close> on a zero divisor, whatever
  the dividend; \<open>math.sqrt\<close> raises \<open>ValueError\<close> on a negative argument and is correctly
  rounded; \<open>==\<close> and \<open><=\<close> are false on NaN. The built-in \<open>sum\<close> of a sequence of
  floats is the addition from the left, starting from 0, of CPython before version 3.12
  (later versions carry a compensation term along).
\<close>

datatype f64 = Finite real | PInf | NInf | NaN

definition pow2 :: "int \<Rightarrow> real" where
  "pow2 e = (if 0 \<le> e then 2 ^ nat e else 1 / 2 ^ nat (- e))"

definition round_even :: "real \<Rightarrow> int" where
  "round_even r =
     (let f = \<lfloor>r\<rfloor>; d = r - of_int f in
      if d < 1 / 2 then f else if 1 / 2 < d then f + 1 else if even f then f else f + 1)"

definition exponent :: "real \<Rightarrow> int" where
  "exponent x = max \<lfloor>log 2 \<bar>x\<bar>\<rfloor> (- 1022)"

definition ulp :: "real \<Rightarrow> real" where
  "ulp x = pow2 (exponent x - 52)"

definition round64 :: "real \<Rightarrow> f64" where
  "round64 x =
     (let y = of_int (round_even (x / ulp x)) * ulp x in
      if 2 ^ 1024 \<le> \<bar>y\<bar> then (if 0 < x then PInf else NInf) else Finite y)"

fun fadd :: "f64 \<Rightarrow> f64 \<Rightarrow> f64" where
  "fadd (Finite x) (Finite y) = round64 (x + y)"
| "fadd NaN _ = NaN"
| "fadd _ NaN = NaN"
| "fadd PInf NInf = NaN"
| "fadd NInf PInf = NaN"
| "fadd PInf _ = PInf"
| "fadd _ PInf = PInf"
| "fadd NInf _ = NInf"
| "fadd _ NInf = NInf"

fun fmul :: "f64 \<Rightarrow> f64 \<Rightarrow> f64" where
  "fmul (Finite x) (Finite y) = round64 (x * y)"
| "fmul NaN _ = NaN"
| "fmul _ NaN = NaN"
| "fmul (Finite x) PInf = (if x = 0 then NaN else if 0 < x then PInf else NInf)"
| "fmul (Finite x) NInf = (if x = 0 then NaN else if 0 < x then NInf else PInf)"
| "fmul PInf (Finite y) = (if y = 0 then NaN else if 0 < y then PInf else NInf)"
| "fmul NInf (Finite y) = (if y = 0 then NaN else if 0 < y then NInf else PInf)"
| "fmul PInf PInf = PInf"
| "fmul NInf NInf = PInf"
| "fmul PInf NInf = NInf"
| "fmul NInf PInf = NInf"

fun fdiv :: "f64 \<Rightarrow> f64 \<Rightarrow> error + f64" where
  "fdiv a (Finite y) =
     (if y = 0 then Inl ZeroDivisionError
      else Inr (case a of
                  Finite x \<Rightarrow> round64 (x / y)
                | PInf \<Rightarrow> (if 0 < y then PInf else NInf)
                | NInf \<Rightarrow> (if 0 < y then NInf else PInf)
                | NaN \<Rightarrow> NaN))"
| "fdiv (Finite x) PInf = Inr (Finite 0)"
| "fdiv (Finite x) NInf = Inr (Finite 0)"
| "fdiv _ _ = Inr NaN"

fun fsqrt :: "f64 \<Rightarrow> error + f64" where
  "fsqrt (Finite x) = (if x < 0 then Inl ValueError else Inr (round64 (sqrt x)))"
| "fsqrt PInf = Inr PInf"
| "fsqrt NInf = Inl ValueError"
| "fsqrt NaN = Inr NaN"

fun feq :: "f64 \<Rightarrow> f64 \<Rightarrow> bool" where
  "feq NaN _ = False"
| "feq _ NaN = False"
| "feq a b = (a = b)"

fun fle :: "f64 \<Rightarrow> f64 \<Rightarrow> bool" where
  "fle NaN _ = False"
| "fle _ NaN = False"
| "fle NInf _ = True"
| "fle _ PInf = True"
| "fle (Finite x) (Finite y) = (x \<le> y)"
| "fle _ _ = False"

definition dot_f64 :: "(string \<times> f64) list \<Rightarrow> (string \<times> f64) list \<Rightarrow> f64" where
  "dot_f64 items other =
     fold (\<lambda>(word, val) dot. fadd dot (fmul val (dict_get other word (Finite 0)))) items (Finite 0)"

definition sum_f64 :: "f64 list \<Rightarrow> f64" where
  "sum_f64 xs = fold (\<lambda>x acc. fadd acc x) xs (Finite 0)"

definition norm_f64 :: "(string \<times> f64) list \<Rightarrow> error + f64" where
  "norm_f64 vec = fsqrt (sum_f64 (map (\<lambda>v. fmul v v) (map snd vec)))"

definition cosine_similarity_f64 ::
  "(string \<times> f64) list \<Rightarrow> (string \<times> f64) list \<Rightarrow> error + f64" where
  "cosine_similarity_f64 vec1 vec2 =
     (if vec1 = [] \<or> vec2 = [] then Inr (Finite 0)
      else
        let dot = (if length vec1 < length vec2 then dot_f64 vec1 vec2 else dot_f64 vec2 vec1) in
        bind_r (norm_f64 vec1) (\<lambda>norm1.
        bind_r (norm_f64 vec2) (\<lambda>norm2.
          if feq norm1 (Finite 0) \<or> feq norm2 (Finite 0) then Inr (Finite 0)
          else fdiv dot (fmul norm1 norm2))))"

text \<open>Sets of doubles that the proofs follow through the computation: the doubles that
  are not negative; those that are zero, at least \<open>2\<^sup>k\<close>, \<open>+inf\<close> or NaN; and those that
  are not below zero, NaN included.\<close>

definition is_nonneg :: "f64 \<Rightarrow> bool" where
  "is_nonneg v = (case v of Finite x \<Rightarrow> 0 \<le> x | PInf \<Rightarrow> True | _ \<Rightarrow> False)"

definition grained :: "int \<Rightarrow> f64 \<Rightarrow> bool" where
  "grained k v = (case v of Finite x \<Rightarrow> x = 0 \<or> pow2 k \<le> x | PInf \<Rightarrow> True | NInf \<Rightarrow> False | NaN \<Rightarrow> True)"

definition not_negative :: "f64 \<Rightarrow> bool" where
  "not_negative v = (is_nonneg v \<or> v = NaN)"

definition weights_not_negative :: "(string \<times> f64) list \<Rightarrow> bool" where
  "weights_not_negative vec = list_all (\<lambda>(w, v). is_nonneg v) vec"

text \<open>
  How far the computed similarity is from the exact one. \<open>unit_roundoff\<close> is \<open>2\<^sup>-\<^sup>5\<^sup>3\<close>, the
  largest relative error of one rounding of a normal double. \<open>approx k x y\<close> says that
  \<open>y\<close> is \<open>x\<close> up to \<open>k\<close> roundings: each is at least \<open>(1 - 2\<^sup>-\<^sup>5\<^sup>3)\<^sup>k\<close> times the other.
  \<open>tracks\<close> is the same for a double that has to be finite; \<open>in_range\<close> and \<open>term_ok\<close> keep
  the exact values away from underflow and overflow. \<open>reals\<close> reads a vector of finite
  doubles as the vector of its real weights, on which the exact function is defined.
  A vector is \<open>moderate\<close> when it is a dictionary of at most \<open>2\<^sup>2\<^sup>0\<close> keys whose weights
  lie between \<open>2\<^sup>-\<^sup>2\<^sup>0\<^sup>0\<close> and \<open>2\<^sup>2\<^sup>0\<^sup>0\<close>: no product, sum, root or quotient of the
  computation then leaves the normal range. \<open>roundings m n\<close> bounds the number of
  roundings between the weights and the result for vectors of \<open>m\<close> and \<open>n\<close> keys.
\<close>

definition unit_roundoff :: real where
  "unit_roundoff = 1 / 2 ^ 53"

definition approx :: "nat \<Rightarrow> real \<Rightarrow> real \<Rightarrow> bool" where
  "approx k x y = (0 \<le> x \<and> x * (1 - unit_roundoff) ^ k \<le> y \<and> y * (1 - unit_roundoff) ^ k \<le> x)"

definition tracks :: "nat \<Rightarrow> real \<Rightarrow> f64 \<Rightarrow> bool" where
  "tracks k x v = (case v of Finite y \<Rightarrow> approx k x y | _ \<Rightarrow> False)"

definition in_range :: "real \<Rightarrow> bool" where
  "in_range x = (x = 0 \<or> (pow2 (- 1021) \<le> x \<and> x \<le> pow2 1022))"

definition term_ok :: "real \<Rightarrow> f64 \<Rightarrow> bool" where
  "term_ok t v = (tracks 1 t v \<and> (t = 0 \<or> pow2 (- 400) \<le> t) \<and> t \<le> pow2 400)"

definition real_of :: "f64 \<Rightarrow> real" where
  "real_of v = (case v of Finite x \<Rightarrow> x | _ \<Rightarrow> 0)"

definition reals :: "(string \<times> f64) list \<Rightarrow> (string \<times> real) list" where
  "reals vec = map (\<lambda>(w, v). (w, real_of v)) vec"

definition moderate_weight :: "f64 \<Rightarrow> bool" where
  "moderate_weight v = (case v of Finite x \<Rightarrow> pow2 (- 200) \<le> x \<and> x \<le> pow2 200 | _ \<Rightarrow> False)"

definition moderate :: "(string \<times> f64) list \<Rightarrow> bool" where
  "moderate vec = (is_dict vec \<and> length vec \<le> 2 ^ 20 \<and> list_all (\<lambda>(w, v). moderate_weight v) vec)"

definition roundings :: "nat \<Rightarrow> nat \<Rightarrow> nat" where
  "roundings m n = m + n + min m n + 7"

section \<open>Ranker: \<open>persona_matcher.py\<close>\<close>

record ranked_sect = doc_sect +
  importance_rank :: int
  score :: real

definition annotate :: "int \<Rightarrow> doc_sect \<times> real \<Rightarrow> ranked_sect" where
  "annotate idx p =
     \<lparr>section_title = section_title (fst p), section_text = section_text (fst p),
      page_number = page_number (fst p), document = document (fst p),
      importance_rank = idx, score = snd p\<rparr>"

text \<open>The section dictionary that a ranked copy was made from: the copy without the two
  keys it adds.\<close>

definition section_of :: "ranked_sect \<Rightarrow> doc_sect" where
  "section_of r =
     \<lparr>section_title = section_title r, section_text = section_text r,
      page_number = page_number r, document = document r\<rparr>"

definition rank_sections :: "doc_sect list \<Rightarrow> persona \<Rightarrow> job \<Rightarrow> error + ranked_sect list" where
  "rank_sections sections pers jb =
     (if sections = [] then Inr []
      else
        bind_r (compute_relevance_scores sections pers jb) (\<lambda>scores.
          let paired = sort_desc snd (zip sections scores) in
          Inr (map (\<lambda>(idx, p). annotate idx p) (zip [1..int (length paired)] paired))))"

section \<open>Refiner: \<open>document_intelligence.py\<close>\<close>

text \<open>\<^verbatim>\<open>re.split(r"(?<=[.!?])\s+", text)\<close>: a separator is a maximal run of whitespace
  whose preceding character is one of the three marks.\<close>

definition is_sentence_end :: "char \<Rightarrow> bool" where
  "is_sentence_end c = (c = CHR ''.'' \<or> c = CHR ''!'' \<or> c = CHR ''?'')"

function split_parts_from :: "string \<Rightarrow> string \<Rightarrow> string list" where
  "split_parts_from cur [] = [rev cur]"
| "split_parts_from cur (c # cs) =
     (if is_space c \<and> cur \<noteq> [] \<and> is_sentence_end (hd cur)
      then rev cur # split_parts_from [] (dropWhile is_space cs)
      else split_parts_from (c # cur) cs)"
  by pat_completeness auto
termination
  by (relation "measure (\<lambda>(cur, s). length s)")
     (auto simp: length_dropWhile_le less_Suc_eq_le)

definition split_into_sentences :: "string \<Rightarrow> string list" where
  "split_into_sentences txt =
     map str_strip (filter (\<lambda>p. length (str_strip p) > 20) (split_parts_from [] txt))"

text \<open>
  The splitting rule in the spec's words, to compare the splitter with: the pieces,
  put back together with the runs of whitespace that separated them, are the text; a
  piece before a separator ends with one of the three marks; the piece after a separator
  does not begin with whitespace; and no piece holds a mark followed by whitespace.
\<close>

definition boundary_at :: "string \<Rightarrow> nat \<Rightarrow> bool" where
  "boundary_at s j = (Suc j < length s \<and> is_sentence_end (s ! j) \<and> is_space (s ! Suc j))"

fun interleave :: "string list \<Rightarrow> string list \<Rightarrow> string" where
  "interleave (p # ps) (w # ws) = p @ w @ interleave ps ws"
| "interleave ps ws = concat ps"

definition sentence_split :: "string \<Rightarrow> string list \<Rightarrow> bool" where
  "sentence_split txt parts =
     (\<exists>seps. length parts = Suc (length seps)
        \<and> interleave parts seps = txt
        \<and> (\<forall>w\<in>set seps. w \<noteq> [] \<and> (\<forall>c\<in>set w. is_space c))
        \<and> (\<forall>i<length seps. parts ! i \<noteq> [] \<and> is_sentence_end (last (parts ! i))
               \<and> (parts ! Suc i = [] \<or> \<not> is_space (hd (parts ! Suc i))))
        \<and> (\<forall>p\<in>set parts. \<forall>j. \<not> boundary_at p j))"

definition score_sentence :: "string \<Rightarrow> string set \<Rightarrow> error + real" where
  "score_sentence sentence query_terms =
     (let words = str_split (clean_text sentence) in
      if words = [] then Inr 0
      else py_div (real (card (query_terms \<inter> set words))) (real (card (set words))))"

record excerpt =
  excerpt_document :: string
  refined_text :: string
  excerpt_page_number :: int

definition query_terms_of :: "persona \<Rightarrow> job \<Rightarrow> string set" where
  "query_terms_of pers jb =
     set (str_split (clean_text
       (get_str (role pers) @ '' '' @ get_str (description pers) @ '' '' @ get_str (task jb))))"

text \<open>The body of the loop of \<open>refine_subsections\<close>, for one section.\<close>

definition refine_text :: "string set \<Rightarrow> string \<Rightarrow> error + string" where
  "refine_text query_terms txt =
     (let sentences = split_into_sentences txt in
      if sentences = [] then Inr (take 300 (str_strip txt))
      else
        bind_r (traverse (\<lambda>sent. bind_r (score_sentence sent query_terms) (\<lambda>sc. Inr (sent, sc)))
                  sentences) (\<lambda>scored.
          let top_sents = map fst (take 2 (sort_desc snd scored)) in
          Inr (str_strip (str_join '' '' top_sents))))"

definition refine_subsections ::
  "ranked_sect list \<Rightarrow> persona \<Rightarrow> job \<Rightarrow> int \<Rightarrow> error + excerpt list" where
  "refine_subsections ranked_sections pers jb top_n =
     (let query_terms = query_terms_of pers jb in
      traverse (\<lambda>sec.
          bind_r (refine_text query_terms (section_text sec)) (\<lambda>refined.
            Inr \<lparr>excerpt_document = document sec, refined_text = refined,
                 excerpt_page_number = page_number sec\<rparr>))
        (py_take top_n ranked_sections))"

section \<open>Example inputs\<close>

definition page_example :: string where
  "page_example = ''this is only'' @ [CHR 0x0A] @ ''  body text here  ''"

definition env_example :: pdf_env where
  "env_example =
     \<lparr>path_exists = (\<lambda>p. p = ''Doc.PDF''),
      run_pdfinfo = (\<lambda>p. Some 1),
      run_pdftotext_page = (\<lambda>p n. Some page_example)\<rparr>"

definition sections_example :: "doc_sect list" where
  "sections_example =
     [\<lparr>section_title = ''1. Introduction'',
       section_text = ''This is a long sentence about optimizing systems for research purposes.'',
       page_number = 1, document = ''paper.pdf''\<rparr>,
      \<lparr>section_title = ''2. Methods'', section_text = ''We analyze the data.'',
       page_number = 1, document = ''paper.pdf''\<rparr>]"

definition persona_example :: persona where
  "persona_example = \<lparr>role = Some ''Researcher'', description = None\<rparr>"

definition job_example :: job where
  "job_example = \<lparr>task = Some ''optimize systems''\<rparr>"

definition ranked_example :: "ranked_sect list" where
  "ranked_example =
     [\<lparr>section_title = ''Notes'', section_text = ''  Short one. tiny.  '',
       page_number = 1, document = ''paper.pdf'', importance_rank = 1, score = 1\<rparr>,
      \<lparr>section_title = ''Results'',
       section_text = ''This is a long sentence about optimizing systems. Short one. Another fairly long sentence is here!  And a third long sentence about systems only.'',
       page_number = 2, document = ''paper.pdf'', importance_rank = 2, score = 0\<rparr>]"

definition sections_tie :: "doc_sect list" where
  "sections_tie =
     [\<lparr>section_title = ''Overview'', section_text = ''We design and build systems.'',
       page_number = 1, document = ''a.pdf''\<rparr>,
      \<lparr>section_title = ''Overview'', section_text = ''We design and build systems.'',
       page_number = 2, document = ''a.pdf''\<rparr>]"

text \<open>Term vectors for the double-precision cosine similarity.\<close>

definition ones3 :: "(string \<times> f64) list" where
  "ones3 = [(''x'', Finite 1), (''y'', Finite 1), (''z'', Finite 1)]"

definition big4 :: "(string \<times> f64) list" where
  "big4 = [(''x'', Finite (2 ^ 53)), (''y'', Finite 1), (''z'', Finite 1), (''w'', Finite 1)]"

definition rev4 :: "(string \<times> f64) list" where
  "rev4 = [(''w'', Finite 1), (''z'', Finite 1), (''y'', Finite 1), (''x'', Finite 1)]"

section \<open>Properties of the Segmenter\<close>

lemma bind_r_Inr [simp]: "bind_r (Inr x) f = f x"
  by (simp add: bind_r_def)

lemma bind_r_Inl [simp]: "bind_r (Inl e) f = Inl e"
  by (simp add: bind_r_def)

lemma split_from_cur_nonempty: "cur \<noteq> [] \<Longrightarrow> split_from cur s \<noteq> []"
  by (induction s arbitrary: cur) auto

lemma split_from_nonempty: "\<exists>c\<in>set s. \<not> is_space c \<Longrightarrow> split_from cur s \<noteq> []"
proof (induction s arbitrary: cur)
  case Nil
  then show ?case by simp
next
  case (Cons c cs)
  show ?case
  proof (cases "is_space c")
    case True
    with Cons.prems have "\<exists>d\<in>set cs. \<not> is_space d" by auto
    with Cons.IH True show ?thesis by auto
  next
    case False
    then show ?thesis by (simp add: split_from_cur_nonempty)
  qed
qed

lemma dropWhile_snoc_keep: "\<not> P x \<Longrightarrow> \<exists>ys. dropWhile P (zs @ [x]) = ys @ [x]"
  by (induction zs) auto

lemma str_strip_hd: "str_strip s \<noteq> [] \<Longrightarrow> \<not> is_space (hd (str_strip s))"
proof -
  assume ne: "str_strip s \<noteq> []"
  let ?d = "dropWhile is_space s"
  have dne: "?d \<noteq> []"
  proof
    assume "?d = []"
    then have "str_strip s = []" by (simp only: str_strip_def rev.simps dropWhile.simps)
    with ne show False by simp
  qed
  then have h: "\<not> is_space (hd ?d)" by (rule hd_dropWhile)
  obtain x xs where d: "?d = x # xs" using dne by (cases ?d) auto
  with h have "\<not> is_space x" by simp
  then obtain ys where "dropWhile is_space (rev xs @ [x]) = ys @ [x]"
    using dropWhile_snoc_keep[of is_space x "rev xs"] by auto
  then have "str_strip s = x # rev ys" using d by (simp add: str_strip_def)
  with \<open>\<not> is_space x\<close> show ?thesis by simp
qed

lemma str_strip_last: "str_strip s \<noteq> [] \<Longrightarrow> \<not> is_space (last (str_strip s))"
proof -
  assume ne: "str_strip s \<noteq> []"
  let ?e = "dropWhile is_space (rev (dropWhile is_space s))"
  have "?e \<noteq> []" using ne by (simp add: str_strip_def)
  then have "\<not> is_space (hd ?e)" by (rule hd_dropWhile)
  moreover have "last (str_strip s) = hd ?e"
    by (simp only: str_strip_def last_rev)
  ultimately show ?thesis by (simp del: hd_dropWhile)
qed

lemma is_heading_total: "\<exists>b. is_heading line = Inr b"
proof (cases "str_strip line = []")
  case True
  then have "is_heading line = Inr False" by (simp add: is_heading_def)
  then show ?thesis by blast
next
  case False
  then have "\<not> is_space (hd (str_strip line))" by (rule str_strip_hd)
  moreover have "hd (str_strip line) \<in> set (str_strip line)"
    using False by (rule hd_in_set)
  ultimately have "\<exists>c\<in>set (str_strip line). \<not> is_space c"
    by blast
  then have "str_split (str_strip line) \<noteq> []"
    unfolding str_split_def by (rule split_from_nonempty)
  moreover have "\<exists>b. \<not> b" and "\<exists>b::bool. b" by blast+
  ultimately show ?thesis
    by (simp add: is_heading_def Let_def py_div_def)
qed

lemma group_lines_total: "\<exists>r. group_lines p lns ct cl secs = Inr r"
proof (induction lns arbitrary: ct cl secs)
  case Nil
  show ?case by simp
next
  case (Cons line lns)
  obtain b where b: "is_heading line = Inr b" using is_heading_total by blast
  show ?case using b Cons.IH by (cases b) simp_all
qed

lemma process_page_total: "\<exists>secs'. process_page p t secs = Inr secs'"
proof -
  obtain ct cl s' where "group_lines p (page_lines t) None [] secs = Inr (ct, cl, s')"
    using group_lines_total by (metis prod_cases3)
  then show ?thesis by (simp add: process_page_def Let_def)
qed

lemma parse_pages_total: "\<exists>secs'. fst (parse_pages env fp ps secs cs) = Inr secs'"
proof (induction ps arbitrary: secs cs)
  case Nil
  show ?case by simp
next
  case (Cons p ps)
  show ?case
  proof (cases "run_pdftotext_page env fp p")
    case None
    then show ?thesis using Cons.IH by simp
  next
    case (Some t)
    obtain s' where "process_page p t secs = Inr s'" using process_page_total by blast
    with Some show ?thesis using Cons.IH by simp
  qed
qed

lemma group_lines_no_heading:
  "\<forall>l\<in>set lns. is_heading l = Inr False \<Longrightarrow>
   group_lines p lns ct cl secs = Inr (ct, cl @ lns, secs)"
  by (induction lns arbitrary: cl) simp_all

lemma str_strip_id:
  assumes "s \<noteq> []" and "\<not> is_space (hd s)" and "\<not> is_space (last s)"
  shows "str_strip s = s"
proof -
  have a: "dropWhile is_space s = s"
    using assms(1,2) by (cases s) simp_all
  obtain x xs where r: "rev s = x # xs"
    using assms(1) by (cases "rev s") simp_all
  then have "last s = x" using assms(1) by (metis hd_rev list.sel(1))
  then have b: "dropWhile is_space (rev s) = rev s"
    using assms(3) unfolding r by simp
  show ?thesis unfolding str_strip_def a b by simp
qed

lemma str_strip_fixed: "str_strip s \<noteq> [] \<Longrightarrow> str_strip (str_strip s) = str_strip s"
  by (rule str_strip_id) (simp_all add: str_strip_hd str_strip_last)

lemma page_lines_stripped:
  "l \<in> set (page_lines t) \<Longrightarrow> l \<noteq> [] \<and> \<not> is_space (hd l) \<and> \<not> is_space (last l)"
  by (auto simp: page_lines_def str_strip_hd str_strip_last)

lemma str_join_nonempty:
  "ls \<noteq> [] \<Longrightarrow> \<forall>l\<in>set ls. l \<noteq> [] \<Longrightarrow>
   str_join sep ls \<noteq> [] \<and> hd (str_join sep ls) = hd (hd ls) \<and> last (str_join sep ls) = last (last ls)"
  by (induction sep ls rule: str_join.induct) auto

lemma str_strip_join_lines:
  assumes "ls \<noteq> []"
    and "\<forall>l\<in>set ls. l \<noteq> [] \<and> \<not> is_space (hd l) \<and> \<not> is_space (last l)"
  shows "str_strip (str_join sep ls) = str_join sep ls"
proof (rule str_strip_id)
  have j: "str_join sep ls \<noteq> [] \<and> hd (str_join sep ls) = hd (hd ls)
      \<and> last (str_join sep ls) = last (last ls)"
    using assms by (intro str_join_nonempty) auto
  have "hd ls \<in> set ls" and "last ls \<in> set ls" using assms(1) by simp_all
  with assms(2) have "\<not> is_space (hd (hd ls))" and "\<not> is_space (last (last ls))" by blast+
  with j show "str_join sep ls \<noteq> []" and "\<not> is_space (hd (str_join sep ls))"
    and "\<not> is_space (last (str_join sep ls))" by simp_all
qed

lemma filter_str_join:
  "\<forall>c\<in>set sep. \<not> P c \<Longrightarrow> filter P (str_join sep ls) = concat (map (filter P) ls)"
  by (induction sep ls rule: str_join.induct) (auto simp: filter_empty_conv)

lemma filter_dropWhile_neg: "filter (\<lambda>c. \<not> P c) (dropWhile P s) = filter (\<lambda>c. \<not> P c) s"
  by (induction s) auto

lemma filter_str_strip: "filter (\<lambda>c. \<not> is_space c) (str_strip s) = filter (\<lambda>c. \<not> is_space c) s"
proof -
  have "filter (\<lambda>c. \<not> is_space c) (str_strip s)
      = rev (filter (\<lambda>c. \<not> is_space c) (dropWhile is_space (rev (dropWhile is_space s))))"
    by (simp add: str_strip_def rev_filter)
  also have "\<dots> = rev (filter (\<lambda>c. \<not> is_space c) (rev (dropWhile is_space s)))"
    by (simp only: filter_dropWhile_neg)
  also have "\<dots> = filter (\<lambda>c. \<not> is_space c) (dropWhile is_space s)"
    by (simp add: rev_filter)
  also have "\<dots> = filter (\<lambda>c. \<not> is_space c) s"
    by (simp only: filter_dropWhile_neg)
  finally show ?thesis .
qed

lemma line_boundary_is_space: "is_line_boundary c \<Longrightarrow> is_space c"
  by (auto simp: is_line_boundary_def is_space_def Let_def)

lemma cr_is_boundary: "code_point c = 13 \<Longrightarrow> is_line_boundary c"
  by (simp add: is_line_boundary_def)

lemma lf_is_space: "code_point c = 10 \<Longrightarrow> is_space c"
  by (simp add: is_space_def)

lemma filter_splitlines_from:
  "concat (map (filter (\<lambda>c. \<not> is_space c)) (splitlines_from cur s))
     = filter (\<lambda>c. \<not> is_space c) (rev cur @ s)"
  by (induction cur s rule: splitlines_from.induct)
     (auto simp: line_boundary_is_space cr_is_boundary lf_is_space)

lemma filter_all_space: "str_strip l = [] \<Longrightarrow> filter (\<lambda>c. \<not> is_space c) l = []"
  using filter_str_strip[of l] by simp

lemma filter_page_lines:
  "concat (map (filter (\<lambda>c. \<not> is_space c)) (page_lines t)) = filter (\<lambda>c. \<not> is_space c) t"
proof -
  have "concat (map (filter (\<lambda>c. \<not> is_space c)) (map str_strip (filter (\<lambda>l. str_strip l \<noteq> []) ls)))
      = concat (map (filter (\<lambda>c. \<not> is_space c)) ls)" for ls
    by (induction ls) (simp_all add: filter_str_strip filter_all_space)
  then show ?thesis
    using filter_splitlines_from[of "[]" t] by (simp add: page_lines_def str_splitlines_def)
qed

lemma space_is_space: "is_space CHR '' ''"
  by (simp add: is_space_def code_point_def)

text \<open>
  Claim C8. A page that has non-empty lines, none of them classified as a heading, adds
  exactly one section: its title is \<open>Page\<close> followed by the page number, and its text is
  the page's non-empty lines, stripped and joined by single spaces, which holds every
  non-whitespace character of the page text in order.
\<close>

theorem C8_page_without_heading:
  assumes "page_lines page_text \<noteq> []"
    and "\<forall>l\<in>set (page_lines page_text). is_heading l = Inr False"
  shows "process_page page_num page_text sections =
           Inr (sections @
             [\<lparr>section_title = ''Page '' @ str_of_int page_num,
               section_text = str_join '' '' (page_lines page_text),
               page_number = page_num\<rparr>])
         \<and> filter (\<lambda>c. \<not> is_space c) (str_join '' '' (page_lines page_text))
             = filter (\<lambda>c. \<not> is_space c) page_text"
proof
  have g: "group_lines page_num (page_lines page_text) None [] sections
      = Inr (None, page_lines page_text, sections)"
    using group_lines_no_heading[OF assms(2)] by simp
  have s: "str_strip (str_join '' '' (page_lines page_text)) = str_join '' '' (page_lines page_text)"
    using assms(1) page_lines_stripped by (intro str_strip_join_lines) blast+
  show "process_page page_num page_text sections =
           Inr (sections @
             [\<lparr>section_title = ''Page '' @ str_of_int page_num,
               section_text = str_join '' '' (page_lines page_text),
               page_number = page_num\<rparr>])"
    using assms(1) by (simp add: process_page_def Let_def g s)
  show "filter (\<lambda>c. \<not> is_space c) (str_join '' '' (page_lines page_text))
             = filter (\<lambda>c. \<not> is_space c) page_text"
    by (simp add: filter_str_join space_is_space filter_page_lines)
qed

theorem C8_page_without_heading_witness:
  "page_lines page_example = [''this is only'', ''body text here'']
   \<and> process_page 12 page_example [] =
       Inr [\<lparr>section_title = ''Page 12'', section_text = ''this is only body text here'',
             page_number = 12\<rparr>]"
proof -
  have l: "page_lines page_example = [''this is only'', ''body text here'']"
    by code_simp
  have h: "\<forall>l\<in>set (page_lines page_example). is_heading l = Inr False"
    unfolding l by code_simp
  have n: "page_lines page_example \<noteq> []" unfolding l by simp
  have j: "str_join '' '' [''this is only'', ''body text here''] = ''this is only body text here''"
    by simp
  have p: "''Page '' @ str_of_int 12 = ''Page 12''" by code_simp
  from C8_page_without_heading[OF n h, of 12 "[]"] show ?thesis
    unfolding l j p by simp
qed

text \<open>
  Claim C10. \<open>parse_pdf\<close> raises \<open>ValueError\<close> exactly when the path does not exist or
  its lower-cased name does not end in \<open>.pdf\<close>, and then no call to the extraction
  collaborators has been made. For a path that passes the check the only failure is the
  \<open>RuntimeError\<close> of the page count; the section-building of a page returns on every
  page text.
\<close>

theorem C10_value_error:
  "(fst (parse_pdf env filepath) = Inl ValueError
      \<longleftrightarrow> \<not> path_exists env filepath \<or> \<not> endswith (str_lower filepath) ''.pdf'')
   \<and> (\<not> path_exists env filepath \<or> \<not> endswith (str_lower filepath) ''.pdf''
      \<longrightarrow> snd (parse_pdf env filepath) = [])
   \<and> (path_exists env filepath \<and> endswith (str_lower filepath) ''.pdf''
      \<longrightarrow> (case run_pdfinfo env filepath of
             None \<Rightarrow> parse_pdf env filepath = (Inl RuntimeError, [PdfInfo filepath])
           | Some num_pages \<Rightarrow> \<exists>sections. fst (parse_pdf env filepath) = Inr sections))
   \<and> (\<exists>sections'. process_page page_num page_text sections = Inr sections')"
proof -
  have t: "\<exists>sections. fst (parse_pages env filepath [1..n] [] [PdfInfo filepath]) = Inr sections" for n
    by (rule parse_pages_total)
  have "fst (parse_pages env filepath [1..n] [] [PdfInfo filepath]) \<noteq> Inl ValueError" for n
    using t[of n] by auto
  then show ?thesis
    using process_page_total[of page_num page_text sections] t
    by (auto simp: parse_pdf_def split: option.splits)
qed

theorem C10_value_error_witness:
  "parse_pdf env_example ''notes.txt'' = (Inl ValueError, [])
   \<and> (\<exists>sections. fst (parse_pdf env_example ''Doc.PDF'') = Inr sections)"
proof -
  have a: "\<not> path_exists env_example ''notes.txt''"
    by (simp add: env_example_def)
  have b: "path_exists env_example ''Doc.PDF'' \<and> endswith (str_lower ''Doc.PDF'') ''.pdf''"
    by (rule conjI, simp add: env_example_def, code_simp)
  have c: "run_pdfinfo env_example ''Doc.PDF'' = Some 1"
    by (simp add: env_example_def)
  from C10_value_error[of env_example "''notes.txt''"] a
  have "fst (parse_pdf env_example ''notes.txt'') = Inl ValueError"
    and "snd (parse_pdf env_example ''notes.txt'') = []" by blast+
  then have "parse_pdf env_example ''notes.txt'' = (Inl ValueError, [])"
    by (simp add: prod_eq_iff)
  moreover from C10_value_error[of env_example "''Doc.PDF''"] b c
  have "\<exists>sections. fst (parse_pdf env_example ''Doc.PDF'') = Inr sections" by simp
  ultimately show ?thesis by blast
qed


text \<open>
  Claim C1. A heading line immediately followed by another heading line would produce no
  section for the first heading, so that every emitted section has non-empty text. The
  loop flushes the open title at the next heading without looking at the body, while the
  flush at the end of the page requires a non-empty body: on the three-line page
  \<open>1. Intro / 2. Methods / body text here\<close> the first heading is emitted with empty text.
\<close>

theorem C1_empty_body_section_emitted:
  "process_page 1 (''1. Intro'' @ [CHR 0x0A] @ ''2. Methods'' @ [CHR 0x0A] @ ''body text here'') []
     = Inr [\<lparr>section_title = ''1. Intro'', section_text = [], page_number = 1\<rparr>,
            \<lparr>section_title = ''2. Methods'', section_text = ''body text here'', page_number = 1\<rparr>]"
  by code_simp

text \<open>What the enumeration rule does accept: a line within the two limits whose
  stripped text matches the expression, such as a digit or a capital letter followed by
  a period and whitespace.\<close>

lemma enumeration_match_nonempty: "enumeration_match s \<Longrightarrow> s \<noteq> []"
  by (auto simp: enumeration_match_def rests_label_def rests_digits_plus_def list_ex_iff)

lemma enumeration_heading:
  assumes "enumeration_match (str_strip line)"
    and "length (str_strip line) \<le> 100"
    and "length (str_split (str_strip line)) \<le> 15"
  shows "is_heading line = Inr True"
  using assms enumeration_match_nonempty[OF assms(1)]
  by (simp add: is_heading_def Let_def)

lemma enumeration_match_digit_label:
  assumes "is_decimal d" and "is_space w"
  shows "enumeration_match (d # CHR ''.'' # w # r)"
proof -
  let ?s = "d # CHR ''.'' # w # r"
  have "1 \<in> set [1..<Suc (length (takeWhile is_decimal ?s))]"
    using assms(1) by simp
  then have "(\<lambda>k. drop k ?s) 1 \<in> (\<lambda>k. drop k ?s) ` set [1..<Suc (length (takeWhile is_decimal ?s))]"
    by (rule imageI)
  then have "drop 1 ?s \<in> set (rests_digits_plus ?s)"
    unfolding rests_digits_plus_def by (simp only: set_map)
  then have "CHR ''.'' # w # r \<in> set (rests_label (d # CHR ''.'' # w # r))"
    by (simp add: rests_label_def)
  moreover have "period_space (CHR ''.'' # w # r)"
    using assms(2) by (simp add: period_space_def)
  ultimately show ?thesis unfolding enumeration_match_def list_ex_iff by blast
qed

lemma enumeration_match_letter_label:
  assumes "is_ascii_upper c" and "is_space w"
  shows "enumeration_match (c # CHR ''.'' # w # r)"
proof -
  have "CHR ''.'' # w # r \<in> set (rests_label (c # CHR ''.'' # w # r))"
    using assms(1) by (simp add: rests_label_def)
  moreover have "period_space (CHR ''.'' # w # r)"
    using assms(2) by (simp add: period_space_def)
  ultimately show ?thesis unfolding enumeration_match_def list_ex_iff by blast
qed

text \<open>
  Claim C2. A line of at most 100 characters and 15 words that starts with an enumeration
  label, the form \<open>2.3\<close> followed by whitespace included, would be a heading. The
  regular expression asks for a period after the label, so \<open>2.3\<close> followed by a space
  does not match it; the line below has 27 characters and 5 words, starts with that form,
  and is not classified as a heading.
\<close>

theorem C2_decimal_label_not_heading:
  "length (str_strip ''2.3 methods of the analysis'') = 27
   \<and> length (str_split (str_strip ''2.3 methods of the analysis'')) = 5
   \<and> take 4 ''2.3 methods of the analysis'' = ''2.3 ''
   \<and> \<not> enumeration_match (str_strip ''2.3 methods of the analysis'')
   \<and> is_heading ''2.3 methods of the analysis'' = Inr False"
  by code_simp

section \<open>Properties of the Relevance Scorer\<close>

lemma traverse_Cons_Inr:
  "traverse f (x # xs) = Inr ys \<Longrightarrow> \<exists>y zs. f x = Inr y \<and> traverse f xs = Inr zs \<and> ys = y # zs"
  by (cases "f x"; cases "traverse f xs") auto

lemma traverse_all2: "traverse f xs = Inr ys \<Longrightarrow> list_all2 (\<lambda>x y. f x = Inr y) xs ys"
proof (induction xs arbitrary: ys)
  case Nil
  then show ?case by simp
next
  case (Cons x xs)
  from traverse_Cons_Inr[OF Cons.prems] obtain y zs
    where "f x = Inr y" and "traverse f xs = Inr zs" and "ys = y # zs" by blast
  with Cons.IH[of zs] show ?case by simp
qed

lemma all2_traverse: "list_all2 (\<lambda>x y. f x = Inr y) xs ys \<Longrightarrow> traverse f xs = Inr ys"
  by (induction xs ys rule: list_all2_induct) simp_all

lemma traverse_iff: "traverse f xs = Inr ys \<longleftrightarrow> list_all2 (\<lambda>x y. f x = Inr y) xs ys"
  using traverse_all2 all2_traverse by blast

lemma traverse_map: "\<forall>x\<in>set xs. f x = Inr (g x) \<Longrightarrow> traverse f xs = Inr (map g xs)"
  by (induction xs) simp_all

lemma traverse_total: "\<forall>x\<in>set xs. \<exists>y. f x = Inr y \<Longrightarrow> \<exists>ys. traverse f xs = Inr ys"
proof (induction xs)
  case Nil
  show ?case by simp
next
  case (Cons x xs)
  then obtain y ys where "f x = Inr y" and "traverse f xs = Inr ys" by auto
  then show ?case by simp
qed

lemma traverse_length: "traverse f xs = Inr ys \<Longrightarrow> length ys = length xs"
  by (simp add: traverse_iff list_all2_lengthD)

lemma traverse_nth: "traverse f xs = Inr ys \<Longrightarrow> i < length xs \<Longrightarrow> f (xs ! i) = Inr (ys ! i)"
  using list_all2_nthD[of "\<lambda>x y. f x = Inr y" xs ys i] by (simp add: traverse_iff)

lemma py_max_Max: "arr \<noteq> [] \<Longrightarrow> py_max arr = Inr (Max (set arr))"
  by (cases arr) (simp_all add: py_max_def Max.set_eq_fold[symmetric])

lemma py_min_Min: "arr \<noteq> [] \<Longrightarrow> py_min arr = Inr (Min (set arr))"
  by (cases arr) (simp_all add: py_min_def Min.set_eq_fold[symmetric])

lemma Max_eq_Min_iff:
  fixes arr :: "real list"
  assumes "arr \<noteq> []"
  shows "Max (set arr) = Min (set arr) \<longleftrightarrow> (\<forall>x\<in>set arr. x = hd arr)"
proof
  assume e: "Max (set arr) = Min (set arr)"
  show "\<forall>x\<in>set arr. x = hd arr"
  proof
    fix x assume x: "x \<in> set arr"
    have h: "hd arr \<in> set arr" using assms by simp
    have "x \<le> Max (set arr)" "Min (set arr) \<le> x" using x by simp_all
    moreover have "hd arr \<le> Max (set arr)" "Min (set arr) \<le> hd arr" using h by simp_all
    ultimately show "x = hd arr" using e by linarith
  qed
next
  assume a: "\<forall>x\<in>set arr. x = hd arr"
  have "set arr = {hd arr}" using assms a by auto
  then show "Max (set arr) = Min (set arr)" by simp
qed

lemma normalise_constant:
  assumes "arr \<noteq> []" and "\<forall>x\<in>set arr. x = hd arr"
  shows "normalise arr = Inr (replicate (length arr) 0)"
  using assms Max_eq_Min_iff[OF assms(1)]
  by (simp add: normalise_def py_max_Max py_min_Min map_replicate_const)

lemma normalise_spread:
  assumes "arr \<noteq> []" and "\<not> (\<forall>x\<in>set arr. x = hd arr)"
  shows "normalise arr =
           Inr (map (\<lambda>x. (x - Min (set arr)) / (Max (set arr) - Min (set arr))) arr)"
proof -
  have ne: "Max (set arr) \<noteq> Min (set arr)"
    using assms Max_eq_Min_iff[OF assms(1)] by blast
  then have "traverse (\<lambda>x. py_div (x - Min (set arr)) (Max (set arr) - Min (set arr))) arr
      = Inr (map (\<lambda>x. (x - Min (set arr)) / (Max (set arr) - Min (set arr))) arr)"
    by (intro traverse_map) (simp add: py_div_def)
  then show ?thesis
    using assms(1) ne by (simp add: normalise_def py_max_Max py_min_Min)
qed

lemma minmax_unit:
  fixes arr :: "real list"
  assumes "x \<in> set arr" and "Max (set arr) \<noteq> Min (set arr)"
  shows "0 \<le> (x - Min (set arr)) / (Max (set arr) - Min (set arr))
       \<and> (x - Min (set arr)) / (Max (set arr) - Min (set arr)) \<le> 1"
proof -
  have a: "Min (set arr) \<le> x" and b: "x \<le> Max (set arr)" using assms(1) by simp_all
  then have "Min (set arr) < Max (set arr)" using assms(2) by linarith
  with a b show ?thesis by (simp add: divide_le_eq)
qed

text \<open>
  Claim C7. On a non-empty array whose values are all equal, \<open>normalise\<close> returns an
  array of the same length made of zeros; on any other non-empty array it returns each
  value \<open>x\<close> as \<open>(x - min) / (max - min)\<close>, a number between 0 and 1.
\<close>

theorem C7_normalise:
  assumes "arr \<noteq> []"
  shows "((\<forall>x\<in>set arr. x = hd arr) \<longrightarrow> normalise arr = Inr (replicate (length arr) 0))
       \<and> (\<not> (\<forall>x\<in>set arr. x = hd arr) \<longrightarrow>
            normalise arr =
              Inr (map (\<lambda>x. (x - Min (set arr)) / (Max (set arr) - Min (set arr))) arr)
            \<and> (\<forall>x\<in>set arr. 0 \<le> (x - Min (set arr)) / (Max (set arr) - Min (set arr))
                             \<and> (x - Min (set arr)) / (Max (set arr) - Min (set arr)) \<le> 1))"
proof (intro conjI impI)
  assume "\<forall>x\<in>set arr. x = hd arr"
  with assms show "normalise arr = Inr (replicate (length arr) 0)" by (rule normalise_constant)
next
  assume n: "\<not> (\<forall>x\<in>set arr. x = hd arr)"
  with assms show "normalise arr =
      Inr (map (\<lambda>x. (x - Min (set arr)) / (Max (set arr) - Min (set arr))) arr)"
    by (rule normalise_spread)
  have "Max (set arr) \<noteq> Min (set arr)" using n Max_eq_Min_iff[OF assms] by blast
  then show "\<forall>x\<in>set arr. 0 \<le> (x - Min (set arr)) / (Max (set arr) - Min (set arr))
                             \<and> (x - Min (set arr)) / (Max (set arr) - Min (set arr)) \<le> 1"
    using minmax_unit by blast
qed

theorem C7_normalise_witness:
  "normalise [2, 2, 2] = Inr [0, 0, 0] \<and> normalise [1, 3, 2] = Inr [0, 1, 1 / 2]"
proof -
  have a: "normalise [2, 2, 2] = Inr (replicate (length [2, 2, 2 :: real]) 0)"
    using C7_normalise[of "[2, 2, 2]"] by simp
  have "\<not> (\<forall>x\<in>set [1, 3, 2 :: real]. x = hd [1, 3, 2])" by simp
  with C7_normalise[of "[1, 3, 2]"]
  have "normalise [1, 3, 2]
      = Inr (map (\<lambda>x. (x - Min (set [1, 3, 2])) / (Max (set [1, 3, 2]) - Min (set [1, 3, 2]))) [1, 3, 2])"
    by blast
  then have b: "normalise [1, 3, 2] = Inr [0, 1, 1 / 2]" by simp
  from a b show ?thesis by (simp add: numeral_3_eq_3)
qed

lemma fold_dot_sum:
  "fold (\<lambda>(word, val) dot. dot + val * g word) xs acc
     = acc + sum_list (map (\<lambda>(word, val). val * g word) xs)"
  by (induction xs arbitrary: acc) (auto simp: algebra_simps)

lemma dict_get_member: "is_dict d \<Longrightarrow> (k, v) \<in> set d \<Longrightarrow> dict_get d k dflt = v"
  by (simp add: dict_get_def is_dict_def)

lemma dict_get_absent: "k \<notin> fst ` set d \<Longrightarrow> dict_get d k dflt = dflt"
proof -
  assume "k \<notin> fst ` set d"
  then have "map_of d k = None" by (simp add: map_of_eq_None_iff)
  then show ?thesis by (simp add: dict_get_def)
qed

lemma sum_list_dict:
  fixes h :: "'k \<Rightarrow> real \<Rightarrow> real"
  assumes "is_dict d"
  shows "sum_list (map (\<lambda>(w, v). h w v) d) = (\<Sum>w\<in>fst ` set d. h w (dict_get d w 0))"
proof -
  have dd: "distinct d" and inj: "inj_on fst (set d)"
    using assms by (simp_all add: is_dict_def distinct_map)
  have "sum_list (map (\<lambda>(w, v). h w v) d) = (\<Sum>p\<in>set d. (\<lambda>(w, v). h w v) p)"
    using dd by (simp add: sum_list_distinct_conv_sum_set)
  also have "\<dots> = (\<Sum>p\<in>set d. h (fst p) (dict_get d (fst p) 0))"
    by (rule sum.cong) (auto simp: dict_get_member[OF assms])
  also have "\<dots> = (\<Sum>w\<in>fst ` set d. h w (dict_get d w 0))"
    using inj by (simp add: sum.reindex)
  finally show ?thesis .
qed

lemma sum_extend_keys:
  fixes h :: "'k \<Rightarrow> real \<Rightarrow> real"
  assumes "\<And>w. h w 0 = 0" and "finite K" and "fst ` set d \<subseteq> K"
  shows "(\<Sum>w\<in>fst ` set d. h w (dict_get d w 0)) = (\<Sum>w\<in>K. h w (dict_get d w 0))"
  using assms by (intro sum.mono_neutral_left) (auto simp: dict_get_absent)

lemma dot_as_sum:
  fixes a b :: "('k \<times> real) list"
  assumes "is_dict a"
  shows "fold (\<lambda>(word, val) dot. dot + val * dict_get b word 0) a 0
     = (\<Sum>w\<in>fst ` set a \<union> fst ` set b. dict_get a w 0 * dict_get b w 0)"
proof -
  have "fold (\<lambda>(word, val) dot. dot + val * dict_get b word 0) a 0
      = sum_list (map (\<lambda>(w, v). v * dict_get b w 0) a)"
    by (simp add: fold_dot_sum)
  also have "\<dots> = (\<Sum>w\<in>fst ` set a. dict_get a w 0 * dict_get b w 0)"
    using sum_list_dict[OF assms, of "\<lambda>w v. v * dict_get b w 0"] by simp
  also have "\<dots> = (\<Sum>w\<in>fst ` set a \<union> fst ` set b. dict_get a w 0 * dict_get b w 0)"
    using sum_extend_keys[of "\<lambda>w v. v * dict_get b w 0" "fst ` set a \<union> fst ` set b" a] by simp
  finally show ?thesis .
qed

lemma norm_as_sum:
  fixes a :: "('k \<times> real) list"
  assumes "is_dict a" and "finite K" and "fst ` set a \<subseteq> K"
  shows "sum_list (map (\<lambda>v. v * v) (map snd a)) = (\<Sum>w\<in>K. (dict_get a w 0)\<^sup>2)"
proof -
  have "sum_list (map (\<lambda>v. v * v) (map snd a)) = sum_list (map (\<lambda>(w, v). v\<^sup>2) a)"
    by (induction a) (auto simp: power2_eq_square)
  also have "\<dots> = (\<Sum>w\<in>fst ` set a. (dict_get a w 0)\<^sup>2)"
    using sum_list_dict[OF assms(1), of "\<lambda>w v. v\<^sup>2"] by simp
  also have "\<dots> = (\<Sum>w\<in>K. (dict_get a w 0)\<^sup>2)"
    using sum_extend_keys[of "\<lambda>w v. v\<^sup>2" K a] assms(2,3) by simp
  finally show ?thesis .
qed

lemma squares_nonneg: "0 \<le> sum_list (map (\<lambda>v. v * v) (vs :: real list))"
  by (induction vs) simp_all

lemma cosine_total: "\<exists>r. cosine_similarity vec1 vec2 = Inr r"
  using squares_nonneg[of "map snd vec1"] squares_nonneg[of "map snd vec2"]
  by (auto simp: cosine_similarity_def Let_def py_sqrt_def py_div_def)

lemma cosine_zero:
  "vec1 = [] \<or> vec2 = [] \<or> sqrt (sum_list (map (\<lambda>v. v * v) (map snd vec1))) = 0
     \<or> sqrt (sum_list (map (\<lambda>v. v * v) (map snd vec2))) = 0
   \<Longrightarrow> cosine_similarity vec1 vec2 = Inr 0"
  using squares_nonneg[of "map snd vec1"] squares_nonneg[of "map snd vec2"]
  by (auto simp: cosine_similarity_def Let_def py_sqrt_def)


lemma cauchy_schwarz_sum:
  fixes x y :: "'a \<Rightarrow> real"
  shows "(\<Sum>i\<in>S. x i * y i)\<^sup>2 \<le> (\<Sum>i\<in>S. (x i)\<^sup>2) * (\<Sum>i\<in>S. (y i)\<^sup>2)"
proof -
  let ?A = "\<Sum>i\<in>S. (x i)\<^sup>2" and ?B = "\<Sum>i\<in>S. (y i)\<^sup>2" and ?C = "\<Sum>i\<in>S. x i * y i"
  have "0 \<le> (\<Sum>i\<in>S. \<Sum>j\<in>S. (x i * y j - x j * y i)\<^sup>2)"
    by (intro sum_nonneg) simp
  also have "\<dots> = (\<Sum>i\<in>S. \<Sum>j\<in>S.
      (x i)\<^sup>2 * (y j)\<^sup>2 + (y i)\<^sup>2 * (x j)\<^sup>2 - 2 * ((x i * y i) * (x j * y j)))"
    by (intro sum.cong refl) (simp add: power2_eq_square algebra_simps)
  also have "\<dots> = (\<Sum>i\<in>S. \<Sum>j\<in>S. (x i)\<^sup>2 * (y j)\<^sup>2)
      + (\<Sum>i\<in>S. \<Sum>j\<in>S. (y i)\<^sup>2 * (x j)\<^sup>2)
      - 2 * (\<Sum>i\<in>S. \<Sum>j\<in>S. (x i * y i) * (x j * y j))"
    by (simp only: sum.distrib sum_subtractf sum_distrib_left)
  also have "\<dots> = ?A * ?B + ?B * ?A - 2 * (?C * ?C)"
    by (simp only: sum_product)
  finally have "0 \<le> 2 * (?A * ?B) - 2 * ?C\<^sup>2"
    by (simp add: power2_eq_square algebra_simps)
  then show ?thesis by simp
qed

lemma cosine_symmetric:
  fixes vec1 vec2 :: "(string \<times> real) list"
  assumes "is_dict vec1" and "is_dict vec2"
  shows "cosine_similarity vec1 vec2 = cosine_similarity vec2 vec1"
proof -
  have d: "fold (\<lambda>(word, val) dot. dot + val * dict_get vec2 word 0) vec1 0
      = fold (\<lambda>(word, val) dot. dot + val * dict_get vec1 word 0) vec2 0"
    unfolding dot_as_sum[OF assms(1)] dot_as_sum[OF assms(2)]
    by (simp add: Un_commute mult.commute)
  show ?thesis
    unfolding cosine_similarity_def Let_def d
    by (auto simp: py_sqrt_def py_div_def mult.commute)
qed

lemma cosine_unit:
  fixes vec1 vec2 :: "(string \<times> real) list"
  assumes "term_vector vec1" and "term_vector vec2"
  shows "\<exists>r. cosine_similarity vec1 vec2 = Inr r \<and> 0 \<le> r \<and> r \<le> 1"
proof -
  have d1: "is_dict vec1" and d2: "is_dict vec2"
    using assms by (simp_all add: term_vector_def)
  let ?K = "fst ` set vec1 \<union> fst ` set vec2"
  let ?A = "sum_list (map (\<lambda>v. v * v) (map snd vec1))"
  let ?B = "sum_list (map (\<lambda>v. v * v) (map snd vec2))"
  let ?D = "\<Sum>w\<in>?K. dict_get vec1 w 0 * dict_get vec2 w 0"
  have nn: "0 \<le> dict_get v w 0" if "term_vector v" for v :: "(string \<times> real) list" and w
  proof (cases "map_of v w")
    case None
    then show ?thesis by (simp add: dict_get_def)
  next
    case (Some x)
    then have "(w, x) \<in> set v" by (rule map_of_SomeD)
    with that have "0 \<le> x" by (auto simp: term_vector_def list_all_iff)
    with Some show ?thesis by (simp add: dict_get_def)
  qed
  have D0: "0 \<le> ?D"
    by (intro sum_nonneg mult_nonneg_nonneg nn assms)
  have A: "?A = (\<Sum>w\<in>?K. (dict_get vec1 w 0)\<^sup>2)"
    by (rule norm_as_sum[OF d1]) auto
  have B: "?B = (\<Sum>w\<in>?K. (dict_get vec2 w 0)\<^sup>2)"
    by (rule norm_as_sum[OF d2]) auto
  have "?D\<^sup>2 \<le> ?A * ?B"
    unfolding A B by (rule cauchy_schwarz_sum)
  then have "?D \<le> sqrt (?A * ?B)" by (rule real_le_rsqrt)
  then have le: "?D \<le> sqrt ?A * sqrt ?B" by (simp add: real_sqrt_mult)
  have dot1: "fold (\<lambda>(word, val) dot. dot + val * dict_get vec2 word 0) vec1 0 = ?D"
    by (rule dot_as_sum[OF d1])
  have dot2: "fold (\<lambda>(word, val) dot. dot + val * dict_get vec1 word 0) vec2 0 = ?D"
    unfolding dot_as_sum[OF d2] by (simp add: Un_commute mult.commute)
  have A0: "0 \<le> ?A" and B0: "0 \<le> ?B" by (rule squares_nonneg)+
  show ?thesis
  proof (cases "vec1 = [] \<or> vec2 = [] \<or> sqrt ?A = 0 \<or> sqrt ?B = 0")
    case True
    then have "cosine_similarity vec1 vec2 = Inr 0" by (rule cosine_zero)
    then show ?thesis by simp
  next
    case False
    then have pos: "0 < sqrt ?A * sqrt ?B"
      using A0 B0 by (simp add: zero_less_mult_iff less_le)
    have "cosine_similarity vec1 vec2 = Inr (?D / (sqrt ?A * sqrt ?B))"
      using False A0 B0 pos
      unfolding cosine_similarity_def Let_def dot1 dot2
      by (simp add: py_sqrt_def py_div_def not_less[symmetric] del: not_less)
    moreover have "0 \<le> ?D / (sqrt ?A * sqrt ?B)" using D0 pos by simp
    moreover have "?D / (sqrt ?A * sqrt ?B) \<le> 1" using le pos by simp
    ultimately show ?thesis by blast
  qed
qed


lemma dict_get_update:
  "dict_get (AList.update k v al) k' d = (if k' = k then v else dict_get al k' d)"
  by (simp add: dict_get_def update_conv')

lemma is_dict_update: "is_dict al \<Longrightarrow> is_dict (AList.update k v al)"
  by (simp add: is_dict_def distinct_update)

lemma is_dict_fold_update:
  "is_dict m \<Longrightarrow> is_dict (fold (\<lambda>w d. AList.update w (g d w) d) ws m)"
  by (induction ws arbitrary: m) (simp_all add: is_dict_update)

lemma is_dict_counter: "is_dict (counter words)"
  unfolding counter_def by (rule is_dict_fold_update) (simp add: is_dict_def)

lemma is_dict_count_docs_fold:
  "is_dict m \<Longrightarrow>
   is_dict (fold (\<lambda>tokens doc_counts.
             fold (\<lambda>token dc. AList.update token (dict_get dc token 0 + 1) dc)
               (remdups tokens) doc_counts) docs m)"
  by (induction docs arbitrary: m) (simp_all add: is_dict_fold_update)

lemma is_dict_count_docs: "is_dict (count_docs docs)"
  unfolding count_docs_def by (rule is_dict_count_docs_fold) (simp add: is_dict_def)

lemma count_tokens_once:
  "distinct ts \<Longrightarrow>
   dict_get (fold (\<lambda>token dc. AList.update token (dict_get dc token 0 + 1) dc) ts m) k (0::nat)
     = dict_get m k 0 + (if k \<in> set ts then 1 else 0)"
  by (induction ts arbitrary: m) (auto simp: dict_get_update)

lemma count_docs_bound_fold:
  "dict_get (fold (\<lambda>tokens doc_counts.
             fold (\<lambda>token dc. AList.update token (dict_get dc token 0 + 1) dc)
               (remdups tokens) doc_counts) docs m) k (0::nat)
     \<le> dict_get m k 0 + length docs"
proof (induction docs arbitrary: m)
  case Nil
  show ?case by simp
next
  case (Cons ts docs)
  let ?m' = "fold (\<lambda>token dc. AList.update token (dict_get dc token 0 + 1) dc) (remdups ts) m"
  have "dict_get ?m' k 0 \<le> dict_get m k 0 + 1"
    using count_tokens_once[OF distinct_remdups, of ts m k] by simp
  with Cons.IH[of ?m'] show ?case by simp
qed

lemma count_docs_bound:
  assumes "(k, c) \<in> set (count_docs docs)"
  shows "c \<le> length docs"
proof -
  have "dict_get (count_docs docs) k 0 = c"
    using is_dict_count_docs assms by (rule dict_get_member)
  moreover have "dict_get (count_docs docs) k 0 \<le> dict_get [] k 0 + length docs"
    unfolding count_docs_def by (rule count_docs_bound_fold)
  ultimately show ?thesis by (simp add: dict_get_def)
qed

lemma all2_right_ex: "list_all2 R xs ys \<Longrightarrow> y \<in> set ys \<Longrightarrow> \<exists>x\<in>set xs. R x y"
  by (induction xs ys rule: list_all2_induct) auto

lemma all2_map_fst:
  "list_all2 (\<lambda>p y. fst y = fst p \<and> Q p y) xs ys \<Longrightarrow> map fst ys = map fst xs"
  by (induction xs ys rule: list_all2_induct) simp_all

lemma compute_tf_term_vector:
  assumes "compute_tf words = Inr tf"
  shows "term_vector tf"
proof (cases "words = []")
  case True
  with assms show ?thesis by (simp add: compute_tf_def term_vector_def is_dict_def)
next
  case False
  let ?f = "\<lambda>(w, c). bind_r (py_div (real c) (real (length words))) (\<lambda>q. Inr (w, q :: real))"
  have "traverse ?f (counter words) = Inr tf"
    using assms False by (simp add: compute_tf_def Let_def)
  then have a: "list_all2 (\<lambda>p y. ?f p = Inr y) (counter words) tf" by (rule traverse_all2)
  have "list_all2 (\<lambda>p y. fst y = fst p \<and> 0 \<le> snd y) (counter words) tf"
    using a by (rule list_all2_mono) (auto simp: py_div_def split: if_splits)
  then have "map fst tf = map fst (counter words)" and "\<forall>y\<in>set tf. 0 \<le> snd y"
    by (rule all2_map_fst, blast dest: all2_right_ex)
  then show ?thesis
    using is_dict_counter[of words] by (auto simp: term_vector_def is_dict_def list_all_iff)
qed

lemma compute_idf_nonneg:
  assumes "compute_idf doc_tokens = Inr idf" and "(w, x) \<in> set idf"
  shows "1 \<le> x"
proof -
  let ?n = "length doc_tokens"
  let ?f = "\<lambda>(token :: string, doc_count).
          bind_r (py_div (real (1 + ?n)) (real (1 + doc_count))) (\<lambda>q.
          bind_r (py_log q) (\<lambda>l. Inr (token, l + 1)))"
  have "traverse ?f (count_docs doc_tokens) = Inr idf"
    using assms(1) by (simp add: compute_idf_def Let_def)
  then have "list_all2 (\<lambda>p y. ?f p = Inr y) (count_docs doc_tokens) idf" by (rule traverse_all2)
  then have "\<exists>p\<in>set (count_docs doc_tokens). ?f p = Inr (w, x)"
    using assms(2) by (rule all2_right_ex)
  then obtain p where p: "p \<in> set (count_docs doc_tokens)" and e: "?f p = Inr (w, x)"
    by blast
  obtain t c where tc: "p = (t, c)" by (cases p)
  then have "c \<le> ?n" using p count_docs_bound by blast
  then have "real (1 + c) \<le> real (1 + ?n)" by simp
  then have q: "1 \<le> real (1 + ?n) / real (1 + c)" by (simp add: le_divide_eq)
  then have "\<not> real (1 + ?n) / real (1 + c) \<le> 0" by linarith
  then have "py_log (real (1 + ?n) / real (1 + c)) = Inr (ln (real (1 + ?n) / real (1 + c)))"
    unfolding py_log_def by (simp only: if_False)
  then have "x = ln (real (1 + ?n) / real (1 + c)) + 1"
    using e tc by (simp add: py_div_def)
  moreover have "0 \<le> ln (real (1 + ?n) / real (1 + c))" using q by simp
  ultimately show ?thesis by simp
qed

lemma tfidf_term_vector:
  assumes "compute_tf words = Inr tf" and "compute_idf doc_tokens = Inr idf"
  shows "term_vector (compute_tfidf_vector tf idf)"
proof -
  have tv: "term_vector tf" using assms(1) by (rule compute_tf_term_vector)
  have g: "0 \<le> dict_get idf w 0" for w
  proof (cases "map_of idf w")
    case None
    then show ?thesis by (simp add: dict_get_def)
  next
    case (Some x)
    then have "(w, x) \<in> set idf" by (rule map_of_SomeD)
    with assms(2) have "1 \<le> x" by (rule compute_idf_nonneg)
    with Some show ?thesis by (simp add: dict_get_def)
  qed
  have "map fst (compute_tfidf_vector tf idf) = map fst tf"
    by (simp add: compute_tfidf_vector_def case_prod_beta comp_def)
  moreover have "\<forall>p\<in>set (compute_tfidf_vector tf idf). 0 \<le> snd p"
    using tv g by (auto simp: compute_tfidf_vector_def term_vector_def list_all_iff)
  ultimately show ?thesis
    using tv by (auto simp: term_vector_def is_dict_def list_all_iff)
qed

text \<open>
  The lemmas above are about the function in exact arithmetic, where it is symmetric and,
  by the Cauchy-Schwarz inequality, at most 1 on weights that are not negative. The
  function that runs computes in double precision; what follows is about that one.
\<close>

lemma pow2_powr: "pow2 e = 2 powr of_int e"
  by (simp add: pow2_def powr_real_of_int field_simps)

lemma pow2_pos [simp]: "0 < pow2 e"
  by (simp add: pow2_powr)

lemma pow2_add: "pow2 (a + b) = pow2 a * pow2 b"
  by (simp add: pow2_powr powr_add)

lemma pow2_mono: "a \<le> b \<Longrightarrow> pow2 a \<le> pow2 b"
  by (simp add: pow2_powr)

lemma pow2_nat: "pow2 (int n) = 2 ^ n"
  by (simp add: pow2_def)

lemma round_even_ge: "of_int k \<le> r \<Longrightarrow> k \<le> round_even r"
proof -
  assume "of_int k \<le> r"
  then have "k \<le> \<lfloor>r\<rfloor>" by (simp add: le_floor_iff)
  then show ?thesis by (simp add: round_even_def Let_def)
qed

lemma round_even_le: "r \<le> of_int k \<Longrightarrow> round_even r \<le> k"
proof -
  assume a: "r \<le> of_int k"
  show ?thesis
  proof (cases "r = of_int k")
    case True
    then show ?thesis by (simp add: round_even_def Let_def)
  next
    case False
    with a have "r < of_int k" by simp
    then have "\<lfloor>r\<rfloor> < k" by (simp add: floor_less_iff)
    then show ?thesis by (simp add: round_even_def Let_def)
  qed
qed

lemma round_even_near:
  assumes "of_int m - 1 / 2 < r" and "r < of_int m + 1 / 2"
  shows "round_even r = m"
proof (cases "of_int m \<le> r")
  case True
  have "r < of_int (m + 1)" using assms(2) by simp
  with True have f: "\<lfloor>r\<rfloor> = m" by (simp add: floor_unique)
  with assms show ?thesis by (simp add: round_even_def Let_def)
next
  case False
  have "of_int (m - 1) \<le> r" using assms(1) by simp
  moreover have "r < of_int (m - 1) + 1" using False by simp
  ultimately have f: "\<lfloor>r\<rfloor> = m - 1" by (rule floor_unique)
  with assms show ?thesis by (simp add: round_even_def Let_def)
qed

lemma exponent_eq:
  assumes "pow2 e \<le> \<bar>x\<bar>" and "\<bar>x\<bar> < pow2 (e + 1)" and "- 1022 \<le> e"
  shows "exponent x = e"
proof -
  have pos: "0 < \<bar>x\<bar>" using assms(1) pow2_pos[of e] by linarith
  have "\<lfloor>log 2 \<bar>x\<bar>\<rfloor> = e"
    using assms(1,2) pos by (simp add: floor_log_eq_powr_iff pow2_powr)
  then show ?thesis using assms(3) by (simp add: exponent_def)
qed

lemma exponent_subnormal:
  assumes "\<bar>x\<bar> < pow2 (- 1022)" and "x \<noteq> 0"
  shows "exponent x = - 1022"
proof -
  have pos: "0 < \<bar>x\<bar>" using assms(2) by simp
  have "log 2 \<bar>x\<bar> < of_int (- 1022)"
    using assms(1) pos by (simp add: pow2_powr log_less_iff)
  then have "\<lfloor>log 2 \<bar>x\<bar>\<rfloor> < - 1022" by (simp add: floor_less_iff)
  then show ?thesis by (simp add: exponent_def)
qed

lemma round64_eval:
  assumes "pow2 e \<le> \<bar>x\<bar>" and "\<bar>x\<bar> < pow2 (e + 1)" and "- 1022 \<le> e"
    and "round_even (x / pow2 (e - 52)) = m"
    and "\<bar>of_int m * pow2 (e - 52)\<bar> < 2 ^ 1024"
  shows "round64 x = Finite (of_int m * pow2 (e - 52))"
proof -
  have "exponent x = e" using assms(1-3) by (rule exponent_eq)
  then have u: "ulp x = pow2 (e - 52)" by (simp add: ulp_def)
  show ?thesis using assms(4,5) by (simp add: round64_def u Let_def)
qed

lemma round64_zero [simp]: "round64 0 = Finite 0"
  by (simp add: round64_def round_even_def Let_def)

lemma round64_cases:
  "round64 x = Finite (of_int (round_even (x / ulp x)) * ulp x)
   \<or> (0 < x \<and> round64 x = PInf) \<or> (x \<le> 0 \<and> round64 x = NInf)"
  by (simp add: round64_def Let_def)

lemma ulp_pos [simp]: "0 < ulp x"
  by (simp add: ulp_def)

lemma rounded_nonneg:
  assumes "0 \<le> x"
  shows "0 \<le> of_int (round_even (x / ulp x)) * ulp x"
proof -
  have "0 \<le> x / ulp x" using assms ulp_pos by (rule divide_nonneg_pos)
  then have "of_int 0 \<le> x / ulp x" by simp
  then have "0 \<le> round_even (x / ulp x)" by (rule round_even_ge)
  then have "0 \<le> real_of_int (round_even (x / ulp x))" by simp
  then show ?thesis by (rule mult_nonneg_nonneg[OF _ less_imp_le[OF ulp_pos]])
qed

lemma round64_nonneg:
  assumes "0 \<le> x"
  shows "is_nonneg (round64 x)"
proof -
  have y: "0 \<le> of_int (round_even (x / ulp x)) * ulp x" using assms by (rule rounded_nonneg)
  show ?thesis
  proof (cases "2 ^ 1024 \<le> \<bar>of_int (round_even (x / ulp x)) * ulp x\<bar>")
    case True
    have "x \<noteq> 0"
    proof
      assume "x = 0"
      with True show False by (simp add: round_even_def)
    qed
    with assms have "0 < x" by simp
    with True show ?thesis by (simp add: round64_def Let_def is_nonneg_def)
  next
    case False
    with y show ?thesis by (simp add: round64_def Let_def is_nonneg_def)
  qed
qed

lemma rounded_ge_aux:
  assumes "pow2 k \<le> x" and "exponent x - 52 \<le> k"
  shows "pow2 k \<le> of_int (round_even (x / ulp x)) * ulp x"
proof -
  define n where "n = nat (k - (exponent x - 52))"
  have k: "k = int n + (exponent x - 52)" using assms(2) by (simp add: n_def)
  have p: "pow2 k = 2 ^ n * ulp x"
    by (subst k) (simp only: pow2_add pow2_nat ulp_def)
  have "2 ^ n * ulp x \<le> x" using assms(1) p by simp
  then have "2 ^ n \<le> x / ulp x" by (simp add: pos_le_divide_eq)
  then have "of_int (2 ^ n) \<le> x / ulp x" by simp
  then have "2 ^ n \<le> round_even (x / ulp x)" by (rule round_even_ge)
  then have "(of_int (2 ^ n) :: real) \<le> of_int (round_even (x / ulp x))" by (simp only: of_int_le_iff)
  then have "2 ^ n * ulp x \<le> of_int (round_even (x / ulp x)) * ulp x" by simp
  with p show ?thesis by simp
qed

lemma rounded_ge:
  assumes "pow2 k \<le> x" and "- 1074 \<le> k"
  shows "pow2 k \<le> of_int (round_even (x / ulp x)) * ulp x"
proof (cases "exponent x - 52 \<le> k")
  case True
  with assms(1) show ?thesis by (rule rounded_ge_aux)
next
  case False
  have pos: "0 < x" using assms(1) pow2_pos[of k] by linarith
  from False assms(2) have e: "- 1022 < exponent x" by simp
  then have f: "exponent x = \<lfloor>log 2 \<bar>x\<bar>\<rfloor>" by (simp add: exponent_def max_def split: if_splits)
  have "2 powr of_int \<lfloor>log 2 x\<rfloor> \<le> x"
    using pos by (simp add: powr_le_iff)
  then have "pow2 (exponent x) \<le> x" using f pos by (simp add: pow2_powr)
  then have "pow2 (exponent x) \<le> of_int (round_even (x / ulp x)) * ulp x"
    by (rule rounded_ge_aux) simp
  moreover have "pow2 k \<le> pow2 (exponent x)" using False by (intro pow2_mono) simp
  ultimately show ?thesis by linarith
qed

lemma round64_ge:
  assumes "pow2 k \<le> x" and "- 1074 \<le> k"
  shows "round64 x = PInf \<or> (\<exists>y. round64 x = Finite y \<and> pow2 k \<le> y)"
proof -
  have pos: "0 < x" using assms(1) pow2_pos[of k] by linarith
  have "pow2 k \<le> of_int (round_even (x / ulp x)) * ulp x" using assms by (rule rounded_ge)
  with pos show ?thesis by (simp add: round64_def Let_def)
qed

lemma round64_grained:
  assumes "x = 0 \<or> pow2 k \<le> x" and "- 1074 \<le> k"
  shows "grained k (round64 x)"
proof (cases "x = 0")
  case True
  then show ?thesis by (simp add: grained_def)
next
  case False
  with assms(1) have "pow2 k \<le> x" by simp
  from round64_ge[OF this assms(2)] show ?thesis by (auto simp: grained_def)
qed

lemma fmul_commute: "fmul a b = fmul b a"
  by (cases a; cases b) (simp_all add: mult.commute)

lemma exponent_ge: "- 1022 \<le> exponent x"
  by (simp add: exponent_def)

lemma ulp_ge: "pow2 (- 1074) \<le> ulp x"
  unfolding ulp_def using exponent_ge[of x] by (intro pow2_mono) simp

lemma round64_grain:
  assumes "0 \<le> x"
  shows "grained (- 1074) (round64 x)"
proof -
  let ?m = "round_even (x / ulp x)"
  have "0 \<le> x / ulp x" using assms ulp_pos by (rule divide_nonneg_pos)
  then have "of_int 0 \<le> x / ulp x" by simp
  then have m: "0 \<le> ?m" by (rule round_even_ge)
  have y: "of_int ?m * ulp x = 0 \<or> pow2 (- 1074) \<le> of_int ?m * ulp x"
  proof (cases "?m = 0")
    case True
    then show ?thesis by simp
  next
    case False
    with m have "1 \<le> ?m" by simp
    then have "(1::real) \<le> of_int ?m" by simp
    then have "1 * ulp x \<le> of_int ?m * ulp x"
      by (rule mult_right_mono) (rule less_imp_le[OF ulp_pos])
    then have "ulp x \<le> of_int ?m * ulp x" by (simp only: mult_1)
    with ulp_ge[of x] have "pow2 (- 1074) \<le> of_int ?m * ulp x" by linarith
    then show ?thesis by (rule disjI2)
  qed
  from round64_cases[of x] show ?thesis
  proof (elim disjE)
    assume "round64 x = Finite (of_int ?m * ulp x)"
    with y show ?thesis by (simp add: grained_def)
  next
    assume "0 < x \<and> round64 x = PInf"
    then show ?thesis by (simp add: grained_def)
  next
    assume a: "x \<le> 0 \<and> round64 x = NInf"
    with assms have "x = 0" by simp
    with a show ?thesis by simp
  qed
qed

lemma grained_Finite: "grained k (Finite x) \<longleftrightarrow> x = 0 \<or> pow2 k \<le> x"
  by (simp add: grained_def)

lemma grained_simps [simp]: "grained k PInf" "grained k NaN" "\<not> grained k NInf" "grained k (Finite 0)"
  by (simp_all add: grained_def)

lemma fmul_square_grained: "grained (- 1074) (fmul v v)"
  by (cases v) (simp_all add: round64_grain)

lemma fadd_grained:
  assumes "grained k a" and "grained k b" and "- 1074 \<le> k"
  shows "grained k (fadd a b)"
proof (cases a)
  case (Finite x)
  note a = this
  show ?thesis
  proof (cases b)
    case (Finite y)
    have px: "x = 0 \<or> pow2 k \<le> x" using assms(1) a by (simp add: grained_Finite)
    have py: "y = 0 \<or> pow2 k \<le> y" using assms(2) Finite by (simp add: grained_Finite)
    have "0 < pow2 k" by simp
    with px py have "x + y = 0 \<or> pow2 k \<le> x + y" by linarith
    then have "grained k (round64 (x + y))" using assms(3) by (rule round64_grained)
    then show ?thesis using a Finite by simp
  qed (use a assms in simp_all)
next
  case PInf
  then show ?thesis using assms by (cases b) simp_all
next
  case NInf
  then show ?thesis using assms by simp
next
  case NaN
  then show ?thesis by simp
qed

lemma fold_fadd_grained:
  assumes "\<forall>v\<in>set xs. grained k v" and "grained k acc" and "- 1074 \<le> k"
  shows "grained k (fold (\<lambda>x acc. fadd acc x) xs acc)"
  using assms(1,2)
proof (induction xs arbitrary: acc)
  case Nil
  then show ?case by simp
next
  case (Cons x xs)
  have "grained k (fadd acc x)" using Cons.prems assms(3) by (intro fadd_grained) simp_all
  with Cons show ?case by simp
qed

lemma sqrt_pow2: "sqrt (pow2 (- 1074)) = pow2 (- 537)"
proof -
  have "pow2 (- 1074) = pow2 (- 537 + - 537)" by simp
  also have "\<dots> = (pow2 (- 537))\<^sup>2" by (simp only: pow2_add power2_eq_square)
  finally have "sqrt (pow2 (- 1074)) = \<bar>pow2 (- 537)\<bar>" by (simp only: real_sqrt_abs)
  then show ?thesis using pow2_pos[of "- 537"] by linarith
qed

lemma fsqrt_grained:
  assumes "grained (- 1074) s"
  shows "\<exists>n. fsqrt s = Inr n \<and> grained (- 537) n"
proof (cases s)
  case (Finite x)
  with assms have px: "x = 0 \<or> pow2 (- 1074) \<le> x" by (simp add: grained_Finite)
  have nonneg: "\<not> x < 0" using px pow2_pos[of "- 1074"] by linarith
  have "sqrt x = 0 \<or> pow2 (- 537) \<le> sqrt x"
  proof (cases "x = 0")
    case True
    then show ?thesis by simp
  next
    case False
    with px have "pow2 (- 1074) \<le> x" by simp
    then have "sqrt (pow2 (- 1074)) \<le> sqrt x" by (simp only: real_sqrt_le_iff)
    then have "pow2 (- 537) \<le> sqrt x" by (simp only: sqrt_pow2)
    then show ?thesis by (rule disjI2)
  qed
  then have "grained (- 537) (round64 (sqrt x))" by (rule round64_grained) simp
  with nonneg Finite show ?thesis by simp
qed (use assms in simp_all)

lemma norm_f64_total: "\<exists>n. norm_f64 vec = Inr n \<and> grained (- 537) n"
proof -
  have "grained (- 1074) (sum_f64 (map (\<lambda>v. fmul v v) (map snd vec)))"
    unfolding sum_f64_def
    by (rule fold_fadd_grained) (auto simp: fmul_square_grained)
  then show ?thesis unfolding norm_f64_def by (rule fsqrt_grained)
qed

lemma fmul_norms_nonzero:
  assumes "grained (- 537) a" and "grained (- 537) b"
    and "\<not> feq a (Finite 0)" and "\<not> feq b (Finite 0)"
  shows "fmul a b \<noteq> Finite 0"
proof (cases a)
  case (Finite x)
  note a = this
  with assms(1,3) have x: "pow2 (- 537) \<le> x" by (simp add: grained_Finite)
  show ?thesis
  proof (cases b)
    case (Finite y)
    with assms(2,4) have y: "pow2 (- 537) \<le> y" by (simp add: grained_Finite)
    have p: "0 \<le> pow2 (- 537)" by (rule less_imp_le[OF pow2_pos])
    have "0 \<le> x" using x p by linarith
    with x y p have "pow2 (- 537) * pow2 (- 537) \<le> x * y"
      by (intro mult_mono)
    moreover have "pow2 (- 1074) = pow2 (- 537) * pow2 (- 537)"
      using pow2_add[of "- 537" "- 537"] by simp
    ultimately have "pow2 (- 1074) \<le> x * y" by simp
    from round64_ge[OF this] have "round64 (x * y) = PInf \<or> (\<exists>z. round64 (x * y) = Finite z \<and> pow2 (- 1074) \<le> z)"
      by simp
    moreover have "\<not> pow2 (- 1074) \<le> 0" using pow2_pos[of "- 1074"] by linarith
    ultimately have "round64 (x * y) \<noteq> Finite 0" by auto
    then show ?thesis using a Finite by simp
  next
    case PInf
    have "0 < x" using x pow2_pos[of "- 537"] by linarith
    then show ?thesis using a PInf by simp
  next
    case NInf
    then show ?thesis using assms(2) by simp
  next
    case NaN
    then show ?thesis using a by simp
  qed
next
  case PInf
  note a = this
  show ?thesis
  proof (cases b)
    case (Finite y)
    with assms(2,4) have y: "pow2 (- 537) \<le> y" by (simp add: grained_Finite)
    have "0 < y" using y pow2_pos[of "- 537"] by linarith
    then show ?thesis using a Finite by simp
  qed (use a assms in simp_all)
next
  case NInf
  then show ?thesis using assms(1) by simp
next
  case NaN
  then show ?thesis by simp
qed

lemma fdiv_total: "d \<noteq> Finite 0 \<Longrightarrow> \<exists>r. fdiv a d = Inr r"
  by (cases a; cases d) simp_all

lemma cosine_f64_total: "\<exists>r. cosine_similarity_f64 vec1 vec2 = Inr r"
proof -
  obtain n1 where n1: "norm_f64 vec1 = Inr n1" "grained (- 537) n1"
    using norm_f64_total[of vec1] by (elim exE conjE)
  obtain n2 where n2: "norm_f64 vec2 = Inr n2" "grained (- 537) n2"
    using norm_f64_total[of vec2] by (elim exE conjE)
  show ?thesis
  proof (cases "vec1 = [] \<or> vec2 = [] \<or> feq n1 (Finite 0) \<or> feq n2 (Finite 0)")
    case True
    then show ?thesis by (auto simp: cosine_similarity_f64_def n1 n2 Let_def)
  next
    case False
    then have "fmul n1 n2 \<noteq> Finite 0" using n1(2) n2(2) by (intro fmul_norms_nonzero) simp_all
    from fdiv_total[OF this] False show ?thesis
      by (simp add: cosine_similarity_f64_def n1 n2 Let_def)
  qed
qed

lemma cosine_f64_zero:
  assumes "vec1 = [] \<or> vec2 = [] \<or> norm_f64 vec1 = Inr (Finite 0) \<or> norm_f64 vec2 = Inr (Finite 0)"
  shows "cosine_similarity_f64 vec1 vec2 = Inr (Finite 0)"
proof -
  obtain n1 where n1: "norm_f64 vec1 = Inr n1" using norm_f64_total[of vec1] by (elim exE conjE)
  obtain n2 where n2: "norm_f64 vec2 = Inr n2" using norm_f64_total[of vec2] by (elim exE conjE)
  from assms have "vec1 = [] \<or> vec2 = [] \<or> n1 = Finite 0 \<or> n2 = Finite 0"
    using n1 n2 by auto
  then show ?thesis by (auto simp: cosine_similarity_f64_def n1 n2 Let_def)
qed

lemma feq_commute_zero: "(feq a (Finite 0) \<or> feq b (Finite 0)) = (feq b (Finite 0) \<or> feq a (Finite 0))"
  by auto

lemma cosine_f64_swap:
  assumes "length vec1 \<noteq> length vec2"
  shows "cosine_similarity_f64 vec1 vec2 = cosine_similarity_f64 vec2 vec1"
proof -
  obtain n1 where n1: "norm_f64 vec1 = Inr n1" using norm_f64_total[of vec1] by (elim exE conjE)
  obtain n2 where n2: "norm_f64 vec2 = Inr n2" using norm_f64_total[of vec2] by (elim exE conjE)
  have d: "(if length vec1 < length vec2 then dot_f64 vec1 vec2 else dot_f64 vec2 vec1)
         = (if length vec2 < length vec1 then dot_f64 vec2 vec1 else dot_f64 vec1 vec2)"
    using assms by auto
  show ?thesis
    unfolding cosine_similarity_f64_def Let_def n1 n2 bind_r_Inr d fmul_commute[of n1 n2]
    by (auto simp: feq_commute_zero)
qed

lemma not_negative_simps [simp]:
  "not_negative (Finite x) \<longleftrightarrow> 0 \<le> x" "not_negative PInf" "not_negative NaN" "\<not> not_negative NInf"
  by (simp_all add: not_negative_def is_nonneg_def)

lemma not_negative_round64: "0 \<le> x \<Longrightarrow> not_negative (round64 x)"
  by (simp add: not_negative_def round64_nonneg)

lemma not_negative_fmul:
  assumes "not_negative a" and "not_negative b"
  shows "not_negative (fmul a b)"
  using assms by (cases a; cases b) (simp_all add: not_negative_round64)

lemma not_negative_fadd:
  assumes "not_negative a" and "not_negative b"
  shows "not_negative (fadd a b)"
  using assms by (cases a; cases b) (simp_all add: not_negative_round64)

lemma not_negative_dict_get:
  assumes "\<forall>(w, v)\<in>set d. not_negative v"
  shows "not_negative (dict_get d k (Finite 0))"
proof (cases "map_of d k")
  case None
  then show ?thesis by (simp add: dict_get_def)
next
  case (Some v)
  then have "(k, v) \<in> set d" by (rule map_of_SomeD)
  with assms have "not_negative v" by auto
  with Some show ?thesis by (simp add: dict_get_def)
qed

lemma not_negative_fold_dot:
  assumes "\<forall>(w, v)\<in>set items. not_negative v" and "\<forall>(w, v)\<in>set other. not_negative v"
    and "not_negative acc"
  shows "not_negative (fold (\<lambda>(word, val) dot. fadd dot (fmul val (dict_get other word (Finite 0)))) items acc)"
  using assms(1,3)
proof (induction items arbitrary: acc)
  case Nil
  then show ?case by simp
next
  case (Cons p items)
  obtain w v where p: "p = (w, v)" by (cases p)
  have v: "not_negative v" using Cons.prems(1) p by simp
  have "not_negative (fadd acc (fmul v (dict_get other w (Finite 0))))"
    by (intro not_negative_fadd not_negative_fmul not_negative_dict_get Cons.prems(2) v assms(2))
  moreover have "\<forall>(w, v)\<in>set items. not_negative v" using Cons.prems(1) by simp
  ultimately show ?case using Cons.IH p by simp
qed

lemma not_negative_dot:
  assumes "\<forall>(w, v)\<in>set items. not_negative v" and "\<forall>(w, v)\<in>set other. not_negative v"
  shows "not_negative (dot_f64 items other)"
  unfolding dot_f64_def using assms by (rule not_negative_fold_dot) simp

lemma not_negative_fold_sum:
  assumes "\<forall>v\<in>set xs. not_negative v" and "not_negative acc"
  shows "not_negative (fold (\<lambda>x acc. fadd acc x) xs acc)"
  using assms
proof (induction xs arbitrary: acc)
  case Nil
  then show ?case by simp
next
  case (Cons x xs)
  have "not_negative (fadd acc x)" using Cons.prems by (intro not_negative_fadd) simp_all
  with Cons show ?case by simp
qed

lemma not_negative_fsqrt:
  assumes "fsqrt s = Inr n"
  shows "not_negative n"
  using assms by (cases s) (auto simp: not_negative_round64 split: if_splits)

lemma not_negative_norm: "norm_f64 vec = Inr n \<Longrightarrow> not_negative n"
  unfolding norm_f64_def by (rule not_negative_fsqrt)

lemma not_negative_fdiv:
  assumes "not_negative a" and "not_negative d" and "fdiv a d = Inr r"
  shows "not_negative r"
proof (cases d)
  case (Finite y)
  with assms(2,3) have y: "0 < y" by (auto split: if_splits)
  show ?thesis
  proof (cases a)
    case (Finite x)
    with assms(1) have "0 \<le> x / y" using y by simp
    then have "not_negative (round64 (x / y))" by (rule not_negative_round64)
    with assms(3) Finite \<open>d = Finite y\<close> y show ?thesis by auto
  qed (use assms Finite y in auto)
next
  case PInf
  then show ?thesis using assms by (cases a) auto
next
  case NInf
  then show ?thesis using assms by simp
next
  case NaN
  then show ?thesis using assms by (cases a) auto
qed

lemma weights_not_negativeD:
  "weights_not_negative vec \<Longrightarrow> \<forall>(w, v)\<in>set vec. not_negative v"
  by (auto simp: weights_not_negative_def list_all_iff not_negative_def)

lemma cosine_f64_unfold:
  assumes "norm_f64 vec1 = Inr n1" and "norm_f64 vec2 = Inr n2"
  shows "cosine_similarity_f64 vec1 vec2 =
     (if vec1 = [] \<or> vec2 = [] \<or> feq n1 (Finite 0) \<or> feq n2 (Finite 0) then Inr (Finite 0)
      else fdiv (if length vec1 < length vec2 then dot_f64 vec1 vec2 else dot_f64 vec2 vec1)
             (fmul n1 n2))"
  by (simp add: cosine_similarity_f64_def Let_def assms)

lemma cosine_f64_not_negative:
  assumes "weights_not_negative vec1" and "weights_not_negative vec2"
    and "cosine_similarity_f64 vec1 vec2 = Inr r"
  shows "not_negative r"
proof -
  obtain n1 where n1: "norm_f64 vec1 = Inr n1" using norm_f64_total[of vec1] by (elim exE conjE)
  obtain n2 where n2: "norm_f64 vec2 = Inr n2" using norm_f64_total[of vec2] by (elim exE conjE)
  note w1 = weights_not_negativeD[OF assms(1)]
  note w2 = weights_not_negativeD[OF assms(2)]
  let ?dot = "if length vec1 < length vec2 then dot_f64 vec1 vec2 else dot_f64 vec2 vec1"
  have dot: "not_negative ?dot" using w1 w2 by (simp add: not_negative_dot)
  have den: "not_negative (fmul n1 n2)"
    by (rule not_negative_fmul[OF not_negative_norm[OF n1] not_negative_norm[OF n2]])
  show ?thesis
  proof (cases "vec1 = [] \<or> vec2 = [] \<or> feq n1 (Finite 0) \<or> feq n2 (Finite 0)")
    case True
    with assms(3) have "r = Finite 0" by (simp add: cosine_f64_unfold[OF n1 n2])
    then show ?thesis by simp
  next
    case False
    with assms(3) have "fdiv ?dot (fmul n1 n2) = Inr r"
      by (simp add: cosine_f64_unfold[OF n1 n2])
    with dot den show ?thesis by (rule not_negative_fdiv)
  qed
qed

lemma round_even_int [simp]: "round_even (of_int k) = k"
  by (simp add: round_even_def Let_def)

lemma round64_num:
  assumes "pow2 e \<le> \<bar>x\<bar>" and "\<bar>x\<bar> < pow2 (e + 1)" and "- 1022 \<le> e"
    and "round_even (x / pow2 (e - 52)) = m"
    and "\<bar>y\<bar> < 2 ^ 1024"
    and "y = of_int m * pow2 (e - 52)"
  shows "round64 x = Finite y"
  using round64_eval[OF assms(1-4)] assms(5,6) by simp

lemma r1: "round64 1 = Finite 1"
  by (rule round64_num[where e=0 and m="2 ^ 52"]) (simp_all add: pow2_def round_even_def Let_def)

lemma r2: "round64 2 = Finite 2"
  by (rule round64_num[where e=1 and m="2 ^ 52"]) (simp_all add: pow2_def round_even_def Let_def)

lemma r3: "round64 3 = Finite 3"
  by (rule round64_num[where e=1 and m="3 * 2 ^ 51"]) (simp_all add: pow2_def round_even_def Let_def)

lemma r4: "round64 4 = Finite 4"
  by (rule round64_num[where e=2 and m="2 ^ 52"]) (simp_all add: pow2_def round_even_def Let_def)

lemma r53: "round64 (2 ^ 53) = Finite (2 ^ 53)"
  by (rule round64_num[where e=53 and m="2 ^ 52"]) (simp_all add: pow2_def round_even_def Let_def)

lemma r53_1: "round64 (2 ^ 53 + 1) = Finite (2 ^ 53)"
  by (rule round64_num[where e=53 and m="2 ^ 52"]) (simp_all add: pow2_def round_even_def Let_def)

lemma r53_3: "round64 (2 ^ 53 + 3) = Finite (2 ^ 53 + 4)"
  by (rule round64_num[where e=53 and m="2 ^ 52 + 2"]) (simp_all add: pow2_def round_even_def Let_def)

lemma r106: "round64 (2 ^ 106) = Finite (2 ^ 106)"
  by (rule round64_num[where e=106 and m="2 ^ 52"]) (simp_all add: pow2_def round_even_def Let_def)

lemma r106_1: "round64 (2 ^ 106 + 1) = Finite (2 ^ 106)"
  by (rule round64_num[where e=106 and m="2 ^ 52"]) (simp_all add: pow2_def round_even_def Let_def)

lemma r54: "round64 (2 ^ 54) = Finite (2 ^ 54)"
  by (rule round64_num[where e=54 and m="2 ^ 52"]) (simp_all add: pow2_def round_even_def Let_def)

lemma rhalf: "round64 (1 / 2) = Finite (1 / 2)"
  by (rule round64_num[where e="- 1" and m="2 ^ 52"]) (simp_all add: pow2_def round_even_def Let_def)

lemma rq1: "round64 ((2 ^ 53 + 4) / 2 ^ 54) = Finite (1 / 2 + 1 / 2 ^ 52)"
  by (rule round64_num[where e="- 1" and m="2 ^ 52 + 2"]) (simp_all add: pow2_def round_even_def Let_def)


lemma sqrt3: "round64 (sqrt 3) = Finite (7800463371553962 / 2 ^ 52)"
proof (rule round64_num[where e=0 and m=7800463371553962])
  have lo: "(7800463371553962 - 1 / 2) / 2 ^ 52 < sqrt 3"
    by (rule real_less_rsqrt) (simp add: power2_eq_square)
  have hi: "sqrt 3 < (7800463371553962 + 1 / 2) / 2 ^ 52"
    by (rule real_less_lsqrt) (simp_all add: power2_eq_square)
  have one: "1 \<le> sqrt 3" by simp
  have two: "sqrt 3 < 2" using hi by simp
  show "pow2 0 \<le> \<bar>sqrt 3\<bar>" using one by (simp add: pow2_def)
  show "\<bar>sqrt 3\<bar> < pow2 (0 + 1)" using two by (simp add: pow2_def)
  show "round_even (sqrt 3 / pow2 (0 - 52)) = 7800463371553962"
    by (rule round_even_near) (use lo hi in \<open>simp_all add: pow2_def field_simps\<close>)
qed (simp_all add: pow2_def)

lemma sq3: "round64 (7800463371553962 / 2 ^ 52 * (7800463371553962 / 2 ^ 52)) = Finite (3 - 1 / 2 ^ 51)"
  by (rule round64_num[where e=1 and m=6755399441055743]) (simp_all add: pow2_def round_even_def Let_def)

lemma q3: "round64 (3 / (3 - 1 / 2 ^ 51)) = Finite (1 + 1 / 2 ^ 52)"
  by (rule round64_num[where e=0 and m="2 ^ 52 + 1"]) (simp_all add: pow2_def round_even_def Let_def)

lemma sqrt4: "round64 (sqrt 4) = Finite 2"
proof -
  have "sqrt 4 = sqrt (2\<^sup>2)" by simp
  also have "\<dots> = 2" by (simp only: real_sqrt_abs)
  finally show ?thesis by (simp add: r2)
qed

lemma sqrt106: "round64 (sqrt (2 ^ 106)) = Finite (2 ^ 53)"
proof -
  have "(2::real) ^ 106 = (2 ^ 53)\<^sup>2" by simp
  then have "sqrt (2 ^ 106) = \<bar>(2::real) ^ 53\<bar>" by (simp only: real_sqrt_abs)
  then have "sqrt (2 ^ 106) = (2::real) ^ 53" by simp
  then show ?thesis by (simp only: r53)
qed

lemma norm_ones3: "norm_f64 ones3 = Inr (Finite (7800463371553962 / 2 ^ 52))"
  by (simp add: norm_f64_def sum_f64_def ones3_def r1 r2 r3 sqrt3)

lemma dot_ones3: "dot_f64 ones3 ones3 = Finite 3"
  by (simp add: dot_f64_def ones3_def dict_get_def r1 r2 r3)

lemma cos_ones3: "cosine_similarity_f64 ones3 ones3 = Inr (Finite (1 + 1 / 2 ^ 52))"
proof -
  have n: "ones3 \<noteq> []" by (simp add: ones3_def)
  have m: "fmul (Finite (7800463371553962 / 2 ^ 52)) (Finite (7800463371553962 / 2 ^ 52)) = Finite (3 - 1 / 2 ^ 51)"
    by (simp only: fmul.simps sq3)
  have d: "fdiv (Finite 3) (Finite (3 - 1 / 2 ^ 51)) = Inr (Finite (1 + 1 / 2 ^ 52))"
    by (simp add: q3[simplified])
  have z: "\<not> feq (Finite (7800463371553962 / 2 ^ 52)) (Finite 0)" by simp
  show ?thesis
    unfolding cosine_similarity_f64_def Let_def norm_ones3 dot_ones3 bind_r_Inr m
    using n z d by (simp only: if_False simp_thms if_cancel nat_less_le less_irrefl)
qed

lemma norm_big4: "norm_f64 big4 = Inr (Finite (2 ^ 53))"
proof -
  have "sum_f64 (map (\<lambda>v. fmul v v) (map snd big4)) = Finite (2 ^ 106)"
    by (simp add: sum_f64_def big4_def r1 r106[simplified] r106_1[simplified])
  then show ?thesis by (simp only: norm_f64_def fsqrt.simps sqrt106) simp
qed

lemma norm_rev4: "norm_f64 rev4 = Inr (Finite 2)"
proof -
  have "sum_f64 (map (\<lambda>v. fmul v v) (map snd rev4)) = Finite 4"
    by (simp add: sum_f64_def rev4_def r1 r2 r3 r4)
  then show ?thesis by (simp only: norm_f64_def fsqrt.simps sqrt4) simp
qed

lemma dot_rev4_big4: "dot_f64 rev4 big4 = Finite (2 ^ 53 + 4)"
  by (simp add: dot_f64_def rev4_def big4_def dict_get_def r1 r2 r3 r53[simplified] r53_3[simplified])

lemma dot_big4_rev4: "dot_f64 big4 rev4 = Finite (2 ^ 53)"
  by (simp add: dot_f64_def rev4_def big4_def dict_get_def r1 r53[simplified] r53_1[simplified])

lemma cos_big4_rev4: "cosine_similarity_f64 big4 rev4 = Inr (Finite (1 / 2 + 1 / 2 ^ 52))"
proof -
  have n: "big4 \<noteq> []" "rev4 \<noteq> []" "\<not> length big4 < length rev4" by (simp_all add: big4_def rev4_def)
  have m: "fmul (Finite (2 ^ 53)) (Finite 2) = Finite (2 ^ 54)"
    using r54 by simp
  have d: "fdiv (Finite (2 ^ 53 + 4)) (Finite (2 ^ 54)) = Inr (Finite (1 / 2 + 1 / 2 ^ 52))"
    using rq1 by simp
  have z: "\<not> feq (Finite (2 ^ 53)) (Finite 0)" "\<not> feq (Finite 2) (Finite 0)" by simp_all
  show ?thesis
    unfolding cosine_similarity_f64_def Let_def norm_big4 norm_rev4 bind_r_Inr m
    using n z d dot_rev4_big4 by (simp only: if_False simp_thms)
qed

lemma cos_rev4_big4: "cosine_similarity_f64 rev4 big4 = Inr (Finite (1 / 2))"
proof -
  have n: "big4 \<noteq> []" "rev4 \<noteq> []" "\<not> length rev4 < length big4" by (simp_all add: big4_def rev4_def)
  have m: "fmul (Finite 2) (Finite (2 ^ 53)) = Finite (2 ^ 54)"
    using r54 by simp
  have d: "fdiv (Finite (2 ^ 53)) (Finite (2 ^ 54)) = Inr (Finite (1 / 2))"
    using rhalf by simp
  have z: "\<not> feq (Finite (2 ^ 53)) (Finite 0)" "\<not> feq (Finite 2) (Finite 0)" by simp_all
  show ?thesis
    unfolding cosine_similarity_f64_def Let_def norm_big4 norm_rev4 bind_r_Inr m
    using n z d dot_big4_rev4 by (simp only: if_False simp_thms)
qed

lemma r2s3: "round64 (7800463371553962 / 2 ^ 52 * 2) = Finite (7800463371553962 / 2 ^ 51)"
  by (rule round64_num[where e=1 and m=7800463371553962]) (simp_all add: pow2_def round_even_def Let_def)

lemma q32: "round64 (3 / (7800463371553962 / 2 ^ 51)) = Finite (7800463371553963 / 2 ^ 53)"
  by (rule round64_num[where e="- 1" and m=7800463371553963]) (simp_all add: pow2_def round_even_def Let_def)

lemma dot_ones3_rev4: "dot_f64 ones3 rev4 = Finite 3"
  by (simp add: dot_f64_def ones3_def rev4_def dict_get_def r1 r2 r3)

lemma cos_ones3_rev4: "cosine_similarity_f64 ones3 rev4 = Inr (Finite (7800463371553963 / 2 ^ 53))"
proof -
  have n: "ones3 \<noteq> []" "rev4 \<noteq> []" "length ones3 < length rev4" by (simp_all add: ones3_def rev4_def)
  have m: "fmul (Finite (7800463371553962 / 2 ^ 52)) (Finite 2) = Finite (7800463371553962 / 2 ^ 51)"
    by (simp only: fmul.simps r2s3)
  have d: "fdiv (Finite 3) (Finite (7800463371553962 / 2 ^ 51)) = Inr (Finite (7800463371553963 / 2 ^ 53))"
    by (simp add: q32[simplified])
  have z: "\<not> feq (Finite (7800463371553962 / 2 ^ 52)) (Finite 0)" "\<not> feq (Finite 2) (Finite 0)" by simp_all
  show ?thesis
    unfolding cosine_f64_unfold[OF norm_ones3 norm_rev4] m
    using n z d dot_ones3_rev4 by (simp only: if_False if_True simp_thms)
qed

lemma norm_f64_zero:
  assumes "list_all (\<lambda>(w, v). v = Finite 0) vec"
  shows "norm_f64 vec = Inr (Finite 0)"
proof -
  have "fold (\<lambda>x acc. fadd acc x) (map (\<lambda>v. fmul v v) (map snd vec)) (Finite 0) = Finite 0"
    using assms by (induction vec) auto
  then show ?thesis by (simp add: norm_f64_def sum_f64_def)
qed

text \<open>
  The error of the double-precision function on moderate vectors: every intermediate
  value is the exact one up to a counted number of roundings, so the result is the exact
  cosine up to \<open>roundings\<close> of them, and inherits the bound 1 and the symmetry of the
  exact function up to that factor.
\<close>

lemma w_bounds: "0 < 1 - unit_roundoff" "1 - unit_roundoff < 1" "1 - unit_roundoff \<le> 1" "0 \<le> 1 - unit_roundoff"
  by (simp_all add: unit_roundoff_def)

lemma w_pow_pos: "0 < (1 - unit_roundoff) ^ k"
  using w_bounds(1) by (rule zero_less_power)

lemma w_pow_nonneg: "0 \<le> (1 - unit_roundoff) ^ k"
  by (rule less_imp_le[OF w_pow_pos])

lemma w_pow_le1: "(1 - unit_roundoff) ^ k \<le> 1"
  using w_bounds(4) w_bounds(3) by (rule power_le_one)

lemma w_pow_mono: "j \<le> k \<Longrightarrow> (1 - unit_roundoff) ^ k \<le> (1 - unit_roundoff) ^ j"
  using w_bounds(4) w_bounds(3) by (intro power_decreasing)

lemma approx_refl: "0 \<le> x \<Longrightarrow> approx 0 x x"
  by (simp add: approx_def)

lemma approx_nonneg: "approx k x y \<Longrightarrow> 0 \<le> y"
proof -
  assume a: "approx k x y"
  then have "0 \<le> x * (1 - unit_roundoff) ^ k"
    using w_pow_pos[of k] by (simp add: approx_def)
  with a show ?thesis by (simp add: approx_def)
qed

lemma approx_mono:
  assumes "approx j x y" and "j \<le> k"
  shows "approx k x y"
proof -
  have x: "0 \<le> x" and y: "0 \<le> y" using assms(1) approx_nonneg[OF assms(1)] by (simp_all add: approx_def)
  have m: "(1 - unit_roundoff) ^ k \<le> (1 - unit_roundoff) ^ j" using assms(2) by (rule w_pow_mono)
  have "x * (1 - unit_roundoff) ^ k \<le> x * (1 - unit_roundoff) ^ j" using m x by (rule mult_left_mono)
  moreover have "y * (1 - unit_roundoff) ^ k \<le> y * (1 - unit_roundoff) ^ j" using m y by (rule mult_left_mono)
  ultimately show ?thesis using assms(1) by (simp add: approx_def)
qed

lemma approx_trans:
  assumes "approx j x y" and "approx k y z"
  shows "approx (j + k) x z"
proof -
  let ?w = "1 - unit_roundoff"
  have wk: "0 \<le> ?w ^ k" and wj: "0 \<le> ?w ^ j" by (rule w_pow_nonneg)+
  have "x * ?w ^ (j + k) = (x * ?w ^ j) * ?w ^ k" by (simp add: power_add)
  also have "\<dots> \<le> y * ?w ^ k" using assms(1) wk by (intro mult_right_mono) (simp_all add: approx_def)
  also have "\<dots> \<le> z" using assms(2) by (simp add: approx_def)
  finally have 1: "x * ?w ^ (j + k) \<le> z" .
  have "z * ?w ^ (j + k) = (z * ?w ^ k) * ?w ^ j" by (simp add: power_add)
  also have "\<dots> \<le> y * ?w ^ j" using assms(2) wj by (intro mult_right_mono) (simp_all add: approx_def)
  also have "\<dots> \<le> x" using assms(1) by (simp add: approx_def)
  finally have 2: "z * ?w ^ (j + k) \<le> x" .
  from 1 2 assms(1) show ?thesis by (simp add: approx_def)
qed

lemma approx_mult:
  assumes "approx j x1 y1" and "approx k x2 y2"
  shows "approx (j + k) (x1 * x2) (y1 * y2)"
proof -
  let ?w = "1 - unit_roundoff"
  have x1: "0 \<le> x1" and x2: "0 \<le> x2" using assms by (simp_all add: approx_def)
  have y1: "0 \<le> y1" and y2: "0 \<le> y2" using assms by (simp_all add: approx_nonneg)
  have wk: "0 \<le> ?w ^ k" and wj: "0 \<le> ?w ^ j" by (rule w_pow_nonneg)+
  have a: "x1 * ?w ^ j \<le> y1" "x2 * ?w ^ k \<le> y2" "y1 * ?w ^ j \<le> x1" "y2 * ?w ^ k \<le> x2"
    using assms by (simp_all add: approx_def)
  have "(x1 * ?w ^ j) * (x2 * ?w ^ k) \<le> y1 * y2"
    using a(1,2) x2 wk y1 by (intro mult_mono) simp_all
  then have 1: "x1 * x2 * ?w ^ (j + k) \<le> y1 * y2" by (simp add: power_add mult_ac)
  have "(y1 * ?w ^ j) * (y2 * ?w ^ k) \<le> x1 * x2"
    using a(3,4) y2 wk x1 by (intro mult_mono) simp_all
  then have 2: "y1 * y2 * ?w ^ (j + k) \<le> x1 * x2" by (simp add: power_add mult_ac)
  from 1 2 x1 x2 show ?thesis by (simp add: approx_def)
qed

lemma approx_add:
  assumes "approx k x1 y1" and "approx k x2 y2"
  shows "approx k (x1 + x2) (y1 + y2)"
  using assms by (simp add: approx_def distrib_right)

lemma approx_sqrt:
  assumes "approx k x y"
  shows "approx k (sqrt x) (sqrt y)"
proof -
  let ?w = "1 - unit_roundoff"
  let ?p = "?w ^ k"
  have x: "0 \<le> x" using assms by (simp add: approx_def)
  have y: "0 \<le> y" using assms by (rule approx_nonneg)
  have p: "0 \<le> ?p" "?p \<le> 1" using w_pow_pos[of k] w_pow_le1[of k] by simp_all
  have "?p * ?p \<le> ?p * 1" using p by (intro mult_left_mono) simp_all
  then have "?p\<^sup>2 \<le> ?p" by (simp add: power2_eq_square)
  then have ps: "?p \<le> sqrt ?p" using p(1) by (simp add: real_le_rsqrt)
  have "sqrt x * ?p \<le> sqrt x * sqrt ?p" using ps x by (intro mult_left_mono) simp_all
  also have "\<dots> = sqrt (x * ?p)" by (simp add: real_sqrt_mult)
  also have "\<dots> \<le> sqrt y" using assms by (simp add: approx_def)
  finally have 1: "sqrt x * ?p \<le> sqrt y" .
  have "sqrt y * ?p \<le> sqrt y * sqrt ?p" using ps y by (intro mult_left_mono) simp_all
  also have "\<dots> = sqrt (y * ?p)" by (simp add: real_sqrt_mult)
  also have "\<dots> \<le> sqrt x" using assms by (simp add: approx_def)
  finally have 2: "sqrt y * ?p \<le> sqrt x" .
  from 1 2 x show ?thesis by (simp add: approx_def)
qed

lemma approx_pos: "approx k x y \<Longrightarrow> 0 < x \<Longrightarrow> 0 < y"
proof -
  assume a: "approx k x y" and "0 < x"
  then have "0 < x * (1 - unit_roundoff) ^ k" using w_pow_pos[of k] by simp
  with a show ?thesis by (simp add: approx_def)
qed

lemma approx_zero: "approx k 0 y \<Longrightarrow> y = 0"
proof -
  assume a: "approx k 0 y"
  then have "y * (1 - unit_roundoff) ^ k \<le> 0" by (simp add: approx_def)
  then have "y \<le> 0" using w_pow_pos[of k] by (simp add: mult_le_0_iff)
  with approx_nonneg[OF a] show ?thesis by simp
qed

lemma approx_div:
  assumes "approx j x1 y1" and "approx k x2 y2" and "0 < x2"
  shows "approx (j + k) (x1 / x2) (y1 / y2)"
proof -
  let ?w = "1 - unit_roundoff"
  have y2: "0 < y2" using assms(2,3) by (rule approx_pos)
  have x1: "0 \<le> x1" using assms by (simp_all add: approx_def)
  have y1: "0 \<le> y1" using assms by (simp_all add: approx_nonneg)
  have wk: "0 \<le> ?w ^ k" and wj: "0 \<le> ?w ^ j" by (rule w_pow_nonneg)+
  have a: "x1 * ?w ^ j \<le> y1" "x2 * ?w ^ k \<le> y2" "y1 * ?w ^ j \<le> x1" "y2 * ?w ^ k \<le> x2"
    using assms by (simp_all add: approx_def)
  have "(x1 * ?w ^ j) * (y2 * ?w ^ k) \<le> y1 * x2"
    using a(1,4) y2 wk y1 by (intro mult_mono) simp_all
  then have "x1 * ?w ^ (j + k) * y2 \<le> y1 * x2" by (simp add: power_add mult_ac)
  then have 1: "x1 / x2 * ?w ^ (j + k) \<le> y1 / y2"
    using y2 assms(3) by (simp add: field_simps)
  have "(y1 * ?w ^ j) * (x2 * ?w ^ k) \<le> x1 * y2"
    using a(3,2) assms(3) wk x1 by (intro mult_mono) simp_all
  then have "y1 * ?w ^ (j + k) * x2 \<le> x1 * y2" by (simp add: power_add mult_ac)
  then have 2: "y1 / y2 * ?w ^ (j + k) \<le> x1 / x2"
    using y2 assms(3) by (simp add: field_simps)
  from 1 2 x1 assms(3) show ?thesis by (simp add: approx_def)
qed

lemma w_pow_half:
  assumes "k \<le> 2 ^ 52"
  shows "1 / 2 \<le> (1 - unit_roundoff) ^ k"
proof -
  have "1 + real k * (- unit_roundoff) \<le> (1 + (- unit_roundoff)) ^ k"
    by (rule Bernoulli_inequality) (simp add: unit_roundoff_def)
  moreover have "real k \<le> 2 ^ 52" using assms by (metis of_nat_le_iff of_nat_numeral of_nat_power)
  then have "real k * unit_roundoff \<le> 1 / 2" by (simp add: unit_roundoff_def)
  ultimately show ?thesis by simp
qed

lemma approx_range:
  assumes "approx k x y" and "k \<le> 2 ^ 52"
  shows "x / 2 \<le> y" and "y \<le> 2 * x"
proof -
  let ?p = "(1 - unit_roundoff) ^ k"
  have h: "1 / 2 \<le> ?p" using assms(2) by (rule w_pow_half)
  have x: "0 \<le> x" using assms(1) by (simp add: approx_def)
  have y: "0 \<le> y" using assms(1) by (rule approx_nonneg)
  have "x * (1 / 2) \<le> x * ?p" using h x by (rule mult_left_mono)
  with assms(1) show "x / 2 \<le> y" by (simp add: approx_def)
  have "y * (1 / 2) \<le> y * ?p" using h y by (rule mult_left_mono)
  with assms(1) show "y \<le> 2 * x" by (simp add: approx_def)
qed

lemma round_even_err: "\<bar>of_int (round_even r) - r\<bar> \<le> 1 / 2"
proof -
  have "of_int \<lfloor>r\<rfloor> \<le> r" "r < of_int \<lfloor>r\<rfloor> + 1" by linarith+
  then show ?thesis by (auto simp: round_even_def Let_def)
qed

lemma pow2_m53: "pow2 (- 53) = unit_roundoff"
  by (simp add: pow2_def unit_roundoff_def)

lemma round64_rel:
  assumes "pow2 (- 1022) \<le> x" and "x \<le> pow2 1023"
  shows "\<exists>y. round64 x = Finite y \<and> approx 1 x y"
proof -
  have pos: "0 < x" using assms(1) pow2_pos[of "- 1022"] by linarith
  define e where "e = \<lfloor>log 2 x\<rfloor>"
  have b: "pow2 e \<le> x" "x < pow2 (e + 1)"
    using pos floor_log_eq_powr_iff[of x 2 e] by (simp_all add: e_def pow2_powr)
  have "of_int (- 1022) \<le> log 2 x"
    using assms(1) pos by (simp add: pow2_powr le_log_iff)
  then have e: "- 1022 \<le> e" unfolding e_def by (simp only: le_floor_iff)
  have ex: "exponent x = e" using b e pos by (intro exponent_eq) simp_all
  define q where "q = pow2 (e - 52)"
  have u: "ulp x = q" by (simp add: ulp_def ex q_def)
  have qpos: "0 < q" by (simp add: q_def)
  define m where "m = round_even (x / q)"
  have "\<bar>of_int m - x / q\<bar> \<le> 1 / 2" unfolding m_def by (rule round_even_err)
  then have "\<bar>of_int m - x / q\<bar> * q \<le> 1 / 2 * q" using qpos by (intro mult_right_mono) simp_all
  moreover have "\<bar>of_int m - x / q\<bar> * q = \<bar>(of_int m - x / q) * q\<bar>"
    using qpos by (simp add: abs_mult)
  moreover have "(of_int m - x / q) * q = of_int m * q - x"
    using qpos by (simp add: left_diff_distrib)
  ultimately have d: "\<bar>of_int m * q - x\<bar> \<le> q / 2" by simp
  have "q / 2 = pow2 e * unit_roundoff"
  proof -
    have one: "pow2 1 = 2" by (simp add: pow2_def)
    have "pow2 (e - 52) = pow2 (e + - 53 + 1)" by simp
    also have "\<dots> = pow2 e * pow2 (- 53) * pow2 1" by (simp only: pow2_add)
    finally have "q = pow2 e * unit_roundoff * 2" by (simp only: q_def pow2_m53 one)
    then show ?thesis by simp
  qed
  also have "\<dots> \<le> x * unit_roundoff" using b(1) by (intro mult_right_mono) (simp_all add: unit_roundoff_def)
  finally have h: "q / 2 \<le> x * unit_roundoff" .
  define y where "y = of_int m * q"
  have d': "y - x \<le> q / 2" "x - y \<le> q / 2" using d unfolding y_def by linarith+
  have "x - x * unit_roundoff \<le> y" using d'(2) h by linarith
  then have lo: "x * (1 - unit_roundoff) \<le> y" by (simp only: right_diff_distrib mult_1_right)
  have "y \<le> x + x * unit_roundoff" using d'(1) h by linarith
  then have hi: "y \<le> x * (1 + unit_roundoff)" by (simp only: distrib_left mult_1_right)
  have "y * (1 - unit_roundoff) \<le> x * (1 + unit_roundoff) * (1 - unit_roundoff)"
    using hi by (intro mult_right_mono) (simp_all add: unit_roundoff_def)
  also have "\<dots> = x - x * unit_roundoff\<^sup>2" by (simp add: algebra_simps power2_eq_square)
  also have "\<dots> \<le> x" using pos by simp
  finally have hi': "y * (1 - unit_roundoff) \<le> x" .
  have ap: "approx 1 x y" using lo hi' pos by (simp add: approx_def)
  have ynn: "0 \<le> y" using ap by (rule approx_nonneg)
  have "x * (1 + unit_roundoff) \<le> pow2 1023 * (1 + unit_roundoff)"
    using assms(2) by (intro mult_right_mono) (simp_all add: unit_roundoff_def)
  also have "\<dots> < 2 ^ 1024" by (simp add: pow2_def unit_roundoff_def)
  finally have "y < 2 ^ 1024" using hi by simp
  with ynn have "\<not> 2 ^ 1024 \<le> \<bar>y\<bar>" by simp
  then have "round64 x = Finite y" by (simp add: round64_def Let_def u y_def m_def)
  with ap show ?thesis by blast
qed

lemma tracks_Finite [simp]: "tracks k x (Finite y) = approx k x y"
  by (simp add: tracks_def)

lemma tracksE:
  assumes "tracks k x v"
  obtains y where "v = Finite y" and "approx k x y"
  using assms by (cases v) (simp_all add: tracks_def)

lemma pow2_half: "pow2 (k + 1) / 2 = pow2 k"
proof -
  have "pow2 1 = 2" by (simp add: pow2_def)
  then show ?thesis by (simp add: pow2_add)
qed

lemma rounded_tracks:
  assumes "approx k x t" and "k \<le> 2 ^ 52" and "in_range x"
  shows "tracks (Suc k) x (round64 t)"
proof (cases "x = 0")
  case True
  with assms(1) have "t = 0" by (simp add: approx_zero)
  with True show ?thesis by (simp add: approx_def)
next
  case False
  with assms(3) have r: "pow2 (- 1021) \<le> x" "x \<le> pow2 1022" by (simp_all add: in_range_def)
  note b = approx_range[OF assms(1,2)]
  have "pow2 (- 1022) = pow2 (- 1022 + 1) / 2" by (simp only: pow2_half)
  also have "\<dots> \<le> x / 2" using r(1) by simp
  finally have lo: "pow2 (- 1022) \<le> t" using b(1) by simp
  have "2 * x \<le> 2 * (pow2 (1022 + 1) / 2)" using r(2) by (simp only: pow2_half)
  then have hi: "t \<le> pow2 1023" using b(2) by simp
  from round64_rel[OF lo hi] obtain y where y: "round64 t = Finite y" "approx 1 t y" by blast
  from approx_trans[OF assms(1) y(2)] y(1) show ?thesis by simp
qed

lemma fmul_tracks:
  assumes "tracks j x1 v1" and "tracks k x2 v2" and "j + k \<le> 2 ^ 52" and "in_range (x1 * x2)"
  shows "tracks (Suc (j + k)) (x1 * x2) (fmul v1 v2)"
proof -
  from assms(1) obtain y1 where v1: "v1 = Finite y1" "approx j x1 y1" by (rule tracksE)
  from assms(2) obtain y2 where v2: "v2 = Finite y2" "approx k x2 y2" by (rule tracksE)
  have "approx (j + k) (x1 * x2) (y1 * y2)" using v1(2) v2(2) by (rule approx_mult)
  then have "tracks (Suc (j + k)) (x1 * x2) (round64 (y1 * y2))" using assms(3,4) by (rule rounded_tracks)
  then show ?thesis by (simp add: v1 v2)
qed

lemma fadd_tracks:
  assumes "tracks k x1 v1" and "tracks k x2 v2" and "k \<le> 2 ^ 52" and "in_range (x1 + x2)"
  shows "tracks (Suc k) (x1 + x2) (fadd v1 v2)"
proof -
  from assms(1) obtain y1 where v1: "v1 = Finite y1" "approx k x1 y1" by (rule tracksE)
  from assms(2) obtain y2 where v2: "v2 = Finite y2" "approx k x2 y2" by (rule tracksE)
  have "approx k (x1 + x2) (y1 + y2)" using v1(2) v2(2) by (rule approx_add)
  then have "tracks (Suc k) (x1 + x2) (round64 (y1 + y2))" using assms(3,4) by (rule rounded_tracks)
  then show ?thesis by (simp add: v1 v2)
qed

lemma fsqrt_tracks:
  assumes "tracks k x v" and "k \<le> 2 ^ 52" and "in_range (sqrt x)"
  shows "\<exists>n. fsqrt v = Inr n \<and> tracks (Suc k) (sqrt x) n"
proof -
  from assms(1) obtain y where v: "v = Finite y" "approx k x y" by (rule tracksE)
  have y: "\<not> y < 0" using approx_nonneg[OF v(2)] by simp
  have "approx k (sqrt x) (sqrt y)" using v(2) by (rule approx_sqrt)
  then have "tracks (Suc k) (sqrt x) (round64 (sqrt y))" using assms(2,3) by (rule rounded_tracks)
  then show ?thesis using y by (simp add: v)
qed

lemma fdiv_tracks:
  assumes "tracks j x1 v1" and "tracks k x2 v2" and "0 < x2" and "j + k \<le> 2 ^ 52"
    and "in_range (x1 / x2)"
  shows "\<exists>r. fdiv v1 v2 = Inr r \<and> tracks (Suc (j + k)) (x1 / x2) r"
proof -
  from assms(1) obtain y1 where v1: "v1 = Finite y1" "approx j x1 y1" by (rule tracksE)
  from assms(2) obtain y2 where v2: "v2 = Finite y2" "approx k x2 y2" by (rule tracksE)
  have y2: "0 < y2" using v2(2) assms(3) by (rule approx_pos)
  have "approx (j + k) (x1 / x2) (y1 / y2)" using v1(2) v2(2) assms(3) by (rule approx_div)
  then have "tracks (Suc (j + k)) (x1 / x2) (round64 (y1 / y2))" using assms(4,5) by (rule rounded_tracks)
  then show ?thesis using y2 by (simp add: v1 v2)
qed

lemma tracks_mono: "tracks j x v \<Longrightarrow> j \<le> k \<Longrightarrow> tracks k x v"
  by (cases v) (simp_all add: tracks_def approx_mono)

lemma pow2_numeral_bound: "2 ^ 20 * pow2 400 \<le> pow2 1022"
proof -
  have "(2::real) ^ 20 * pow2 400 = pow2 (20 + 400)" by (simp only: pow2_add) (simp add: pow2_def)
  also have "\<dots> \<le> pow2 1022" by (intro pow2_mono) simp
  finally show ?thesis .
qed

lemma sum_tracks:
  assumes "list_all2 term_ok ts vs"
    and "tracks k s acc" and "1 \<le> k" and "s = 0 \<or> pow2 (- 400) \<le> s"
    and "s \<le> of_nat m * pow2 400" and "m + length ts \<le> 2 ^ 20" and "k + length ts \<le> 2 ^ 52"
  shows "tracks (k + length ts) (s + sum_list ts) (fold (\<lambda>x acc. fadd acc x) vs acc)
       \<and> (s + sum_list ts = 0 \<or> pow2 (- 400) \<le> s + sum_list ts)
       \<and> s + sum_list ts \<le> of_nat (m + length ts) * pow2 400"
  using assms
proof (induction ts vs arbitrary: k s acc m rule: list_all2_induct)
  case Nil
  then show ?case by simp
next
  case (Cons t ts v vs)
  have t: "tracks 1 t v" "t = 0 \<or> pow2 (- 400) \<le> t" "t \<le> pow2 400"
    using Cons.hyps(1) by (simp_all add: term_ok_def)
  have p: "0 < pow2 (- 400)" by simp
  have lo: "s + t = 0 \<or> pow2 (- 400) \<le> s + t" using t(2) Cons.prems(3) p by linarith
  have "s + t \<le> of_nat m * pow2 400 + pow2 400" using Cons.prems(4) t(3) by linarith
  then have hi: "s + t \<le> of_nat (Suc m) * pow2 400" by (simp add: distrib_right)
  have m: "Suc m \<le> 2 ^ 20" using Cons.prems(5) by simp
  then have "real (Suc m) \<le> 2 ^ 20" by (metis of_nat_le_iff of_nat_numeral of_nat_power)
  then have "of_nat (Suc m) * pow2 400 \<le> 2 ^ 20 * pow2 400"
    by (intro mult_right_mono) (simp_all add: less_imp_le)
  with hi pow2_numeral_bound have hi2: "s + t \<le> pow2 1022" by linarith
  have "pow2 (- 1021) \<le> pow2 (- 400)" by (intro pow2_mono) simp
  with lo hi2 have r: "in_range (s + t)" unfolding in_range_def by linarith
  have tk: "tracks k t v" using t(1) Cons.prems(2) by (rule tracks_mono)
  have k: "k \<le> 2 ^ 52" using Cons.prems(6) by simp
  have a: "tracks (Suc k) (s + t) (fadd acc v)" using Cons.prems(1) tk k r by (rule fadd_tracks)
  have "tracks (Suc k + length ts) (s + t + sum_list ts) (fold (\<lambda>x acc. fadd acc x) vs (fadd acc v))
       \<and> (s + t + sum_list ts = 0 \<or> pow2 (- 400) \<le> s + t + sum_list ts)
       \<and> s + t + sum_list ts \<le> of_nat (Suc m + length ts) * pow2 400"
    using a lo hi Cons.prems(5,6) by (intro Cons.IH) simp_all
  then show ?case by (simp add: add.assoc)
qed

lemma reals_simps [simp]: "length (reals vec) = length vec" "reals vec = [] \<longleftrightarrow> vec = []"
  "map fst (reals vec) = map fst vec"
  by (simp_all add: reals_def case_prod_unfold)

lemma dict_get_reals: "dict_get (reals other) w 0 = real_of (dict_get other w (Finite 0))"
proof -
  have "map_of (reals other) w = map_option real_of (map_of other w)"
    unfolding reals_def by (simp add: map_of_map)
  then show ?thesis by (cases "map_of other w") (simp_all add: dict_get_def real_of_def)
qed

lemma moderate_weightE:
  assumes "moderate_weight v"
  obtains x where "v = Finite x" and "pow2 (- 200) \<le> x" and "x \<le> pow2 200"
  using assms by (cases v) (simp_all add: moderate_weight_def)

lemma moderate_member:
  assumes "moderate vec" and "(w, v) \<in> set vec"
  shows "moderate_weight v"
  using assms by (auto simp: moderate_def list_all_iff)

lemma moderate_dict_get:
  assumes "moderate other"
  shows "dict_get other w (Finite 0) = Finite 0 \<or> moderate_weight (dict_get other w (Finite 0))"
proof (cases "map_of other w")
  case None
  then show ?thesis by (simp add: dict_get_def)
next
  case (Some v)
  then have "(w, v) \<in> set other" by (rule map_of_SomeD)
  with assms have "moderate_weight v" by (rule moderate_member)
  with Some show ?thesis by (simp add: dict_get_def)
qed

lemma pow2_sq: "pow2 k * pow2 k = pow2 (2 * k)"
  using pow2_add[of k k] by simp

lemma moderate_product:
  assumes "pow2 (- 200) \<le> x" and "x \<le> pow2 200"
    and "y = 0 \<or> (pow2 (- 200) \<le> y \<and> y \<le> pow2 200)"
  shows "term_ok (x * y) (fmul (Finite x) (Finite y))"
proof -
  have p: "0 < pow2 (- 200)" by simp
  have x: "0 \<le> x" using assms(1) p by linarith
  have y: "0 \<le> y" using assms(3) p by linarith
  have lo: "x * y = 0 \<or> pow2 (- 400) \<le> x * y"
  proof (cases "y = 0")
    case True
    then show ?thesis by simp
  next
    case False
    with assms(3) have "pow2 (- 200) \<le> y" by simp
    with assms(1) x have "pow2 (- 200) * pow2 (- 200) \<le> x * y"
      by (intro mult_mono less_imp_le[OF p])
    then show ?thesis by (simp add: pow2_sq)
  qed
  have "y \<le> pow2 200" using assms(3) pow2_pos[of 200] by linarith
  with assms(2) have "x * y \<le> pow2 200 * pow2 200" using x y by (intro mult_mono) simp_all
  then have hi: "x * y \<le> pow2 400" by (simp add: pow2_sq)
  have "pow2 (- 1021) \<le> pow2 (- 400)" "pow2 400 \<le> pow2 1022" by (intro pow2_mono; simp)+
  with lo hi have r: "in_range (x * y)" unfolding in_range_def by linarith
  have "tracks (Suc (0 + 0)) (x * y) (fmul (Finite x) (Finite y))"
    using x y r by (intro fmul_tracks) (simp_all add: approx_refl)
  with lo hi show ?thesis by (simp add: term_ok_def)
qed

lemma dot_terms_ok:
  assumes "list_all (\<lambda>(w, v). moderate_weight v) items" and "moderate other"
  shows "list_all2 term_ok
           (map (\<lambda>(w, x). x * dict_get (reals other) w 0) (reals items))
           (map (\<lambda>(w, v). fmul v (dict_get other w (Finite 0))) items)"
  using assms(1)
proof (induction items)
  case Nil
  then show ?case by (simp add: reals_def)
next
  case (Cons p items)
  obtain w v where p: "p = (w, v)" by (cases p)
  from Cons.prems p have "moderate_weight v" by simp
  then obtain x where v: "v = Finite x" "pow2 (- 200) \<le> x" "x \<le> pow2 200"
    by (rule moderate_weightE)
  let ?g = "dict_get other w (Finite 0)"
  have "\<exists>y. ?g = Finite y \<and> (y = 0 \<or> (pow2 (- 200) \<le> y \<and> y \<le> pow2 200))"
    using moderate_dict_get[OF assms(2), of w] by (auto elim: moderate_weightE)
  then obtain y where y: "?g = Finite y" "y = 0 \<or> (pow2 (- 200) \<le> y \<and> y \<le> pow2 200)" by blast
  have "term_ok (x * y) (fmul (Finite x) (Finite y))" using v(2,3) y(2) by (rule moderate_product)
  moreover have "dict_get (reals other) w 0 = y" by (simp add: dict_get_reals y(1) real_of_def)
  ultimately have h: "term_ok (x * dict_get (reals other) w 0) (fmul v ?g)" by (simp add: v(1) y(1))
  have t: "list_all2 term_ok
           (map (\<lambda>(w, x). x * dict_get (reals other) w 0) (reals items))
           (map (\<lambda>(w, v). fmul v (dict_get other w (Finite 0))) items)"
    using Cons.prems by (intro Cons.IH) simp
  have r: "reals (p # items) = (w, x) # reals items" by (simp add: reals_def p v(1) real_of_def)
  show ?case unfolding r using h t by (simp add: p)
qed

lemma dot_f64_fold:
  "dot_f64 items other
     = fold (\<lambda>x acc. fadd acc x) (map (\<lambda>(w, v). fmul v (dict_get other w (Finite 0))) items) (Finite 0)"
proof -
  have "(\<lambda>x acc. fadd acc x) \<circ> (\<lambda>(w, v). fmul v (dict_get other w (Finite 0)))
      = (\<lambda>(word, val) dot. fadd dot (fmul val (dict_get other word (Finite 0))))"
    by (simp add: fun_eq_iff)
  then show ?thesis by (simp add: dot_f64_def fold_map)
qed

lemma pow2_zero_product: "0 * pow2 400 = 0"
  by simp

lemma dot_tracks:
  assumes "moderate items" and "moderate other"
  shows "tracks (length items + 1)
           (sum_list (map (\<lambda>(w, x). x * dict_get (reals other) w 0) (reals items)))
           (dot_f64 items other)
       \<and> (sum_list (map (\<lambda>(w, x). x * dict_get (reals other) w 0) (reals items)) = 0
          \<or> pow2 (- 400) \<le> sum_list (map (\<lambda>(w, x). x * dict_get (reals other) w 0) (reals items)))
       \<and> sum_list (map (\<lambda>(w, x). x * dict_get (reals other) w 0) (reals items))
           \<le> 2 ^ 20 * pow2 400"
proof -
  let ?ts = "map (\<lambda>(w, x). x * dict_get (reals other) w 0) (reals items)"
  let ?vs = "map (\<lambda>(w, v). fmul v (dict_get other w (Finite 0))) items"
  have l: "length items \<le> 2 ^ 20" and w: "list_all (\<lambda>(w, v). moderate_weight v) items"
    using assms(1) by (simp_all add: moderate_def)
  have ok: "list_all2 term_ok ?ts ?vs" using w assms(2) by (rule dot_terms_ok)
  have len: "length ?ts = length items" by simp
  have t0: "tracks 1 0 (Finite 0)" by (simp add: approx_def)
  have "tracks (1 + length ?ts) (0 + sum_list ?ts) (fold (\<lambda>x acc. fadd acc x) ?vs (Finite 0))
       \<and> (0 + sum_list ?ts = 0 \<or> pow2 (- 400) \<le> 0 + sum_list ?ts)
       \<and> 0 + sum_list ?ts \<le> of_nat (0 + length ?ts) * pow2 400"
    using ok t0
  proof (rule sum_tracks)
    show "0 + length ?ts \<le> 2 ^ 20" using l by simp
    show "1 + length ?ts \<le> 2 ^ 52" using l by simp
  qed simp_all
  then have a: "tracks (length items + 1) (sum_list ?ts) (dot_f64 items other)"
    and b: "sum_list ?ts = 0 \<or> pow2 (- 400) \<le> sum_list ?ts"
    and c: "sum_list ?ts \<le> of_nat (length items) * pow2 400"
    by (simp_all add: dot_f64_fold len del: length_map)
  have "real (length items) \<le> 2 ^ 20" using l by (metis of_nat_le_iff of_nat_numeral of_nat_power)
  then have "of_nat (length items) * pow2 400 \<le> 2 ^ 20 * pow2 400"
    by (intro mult_right_mono) (simp_all add: less_imp_le)
  with c have "sum_list ?ts \<le> 2 ^ 20 * pow2 400" by linarith
  with a b show ?thesis by blast
qed

lemma square_terms_ok:
  assumes "list_all (\<lambda>(w, v). moderate_weight v) vec"
  shows "list_all2 term_ok (map (\<lambda>v. v * v) (map snd (reals vec))) (map (\<lambda>v. fmul v v) (map snd vec))"
  using assms
proof (induction vec)
  case Nil
  then show ?case by (simp add: reals_def)
next
  case (Cons p vec)
  obtain w v where p: "p = (w, v)" by (cases p)
  from Cons.prems p have "moderate_weight v" by simp
  then obtain x where v: "v = Finite x" "pow2 (- 200) \<le> x" "x \<le> pow2 200"
    by (rule moderate_weightE)
  have "term_ok (x * x) (fmul (Finite x) (Finite x))" using v(2,3) by (intro moderate_product) simp_all
  moreover have "list_all2 term_ok (map (\<lambda>v. v * v) (map snd (reals vec))) (map (\<lambda>v. fmul v v) (map snd vec))"
    using Cons.prems by (intro Cons.IH) simp
  moreover have "reals (p # vec) = (w, x) # reals vec" by (simp add: reals_def p v(1) real_of_def)
  ultimately show ?case by (simp add: p v(1))
qed

lemma pow2_20: "2 ^ 20 * pow2 400 = pow2 420"
proof -
  have "pow2 420 = pow2 (20 + 400)" by simp
  also have "\<dots> = pow2 20 * pow2 400" by (simp only: pow2_add)
  also have "pow2 20 = 2 ^ 20" by (simp add: pow2_def)
  finally show ?thesis by simp
qed

lemma squares_tracks:
  assumes "moderate vec" and "vec \<noteq> []"
  shows "tracks (length vec + 1) (sum_list (map (\<lambda>v. v * v) (map snd (reals vec))))
           (sum_f64 (map (\<lambda>v. fmul v v) (map snd vec)))
       \<and> pow2 (- 400) \<le> sum_list (map (\<lambda>v. v * v) (map snd (reals vec)))
       \<and> sum_list (map (\<lambda>v. v * v) (map snd (reals vec))) \<le> pow2 420"
proof -
  let ?ts = "map (\<lambda>v. v * v) (map snd (reals vec))"
  let ?vs = "map (\<lambda>v. fmul v v) (map snd vec)"
  have l: "length vec \<le> 2 ^ 20" and w: "list_all (\<lambda>(w, v). moderate_weight v) vec"
    using assms(1) by (simp_all add: moderate_def)
  have ok: "list_all2 term_ok ?ts ?vs" using w by (rule square_terms_ok)
  have t0: "tracks 1 0 (Finite 0)" by (simp add: approx_def)
  have "tracks (1 + length ?ts) (0 + sum_list ?ts) (fold (\<lambda>x acc. fadd acc x) ?vs (Finite 0))
       \<and> (0 + sum_list ?ts = 0 \<or> pow2 (- 400) \<le> 0 + sum_list ?ts)
       \<and> 0 + sum_list ?ts \<le> of_nat (0 + length ?ts) * pow2 400"
    using ok t0
  proof (rule sum_tracks)
    show "0 + length ?ts \<le> 2 ^ 20" using l by simp
    show "1 + length ?ts \<le> 2 ^ 52" using l by simp
  qed simp_all
  then have a: "tracks (length vec + 1) (sum_list ?ts) (sum_f64 ?vs)"
    and b: "sum_list ?ts = 0 \<or> pow2 (- 400) \<le> sum_list ?ts"
    and c: "sum_list ?ts \<le> of_nat (length vec) * pow2 400"
    by (simp_all add: sum_f64_def)
  have "real (length vec) \<le> 2 ^ 20" using l by (metis of_nat_le_iff of_nat_numeral of_nat_power)
  then have "of_nat (length vec) * pow2 400 \<le> 2 ^ 20 * pow2 400"
    by (intro mult_right_mono) (simp_all add: less_imp_le)
  then have "of_nat (length vec) * pow2 400 \<le> pow2 420" by (simp only: pow2_20)
  with c have hi: "sum_list ?ts \<le> pow2 420" by linarith
  obtain p rest where vec: "vec = p # rest" using assms(2) by (cases vec) simp_all
  obtain w0 v0 where p: "p = (w0, v0)" by (cases p)
  from w vec p have "moderate_weight v0" by simp
  then obtain x where v: "v0 = Finite x" "pow2 (- 200) \<le> x" "x \<le> pow2 200"
    by (rule moderate_weightE)
  have xpos: "0 < x" using v(2) pow2_pos[of "- 200"] by linarith
  have "sum_list ?ts = x * x + sum_list (map (\<lambda>v. v * v) (map snd (reals rest)))"
    by (simp add: vec p v(1) reals_def real_of_def)
  moreover have "0 \<le> sum_list (map (\<lambda>v. v * v) (map snd (reals rest)))" by (rule squares_nonneg)
  moreover have "0 < x * x" using xpos by simp
  ultimately have "sum_list ?ts \<noteq> 0" by linarith
  with b have "pow2 (- 400) \<le> sum_list ?ts" by simp
  with a hi show ?thesis by blast
qed

lemma sqrt_pow2_even: "sqrt (pow2 (2 * k)) = pow2 k"
proof -
  have "pow2 (2 * k) = (pow2 k)\<^sup>2" by (simp add: pow2_sq[symmetric] power2_eq_square)
  then have "sqrt (pow2 (2 * k)) = \<bar>pow2 k\<bar>" by (simp only: real_sqrt_abs)
  then show ?thesis using pow2_pos[of k] by linarith
qed

lemma norm_tracks:
  assumes "moderate vec" and "vec \<noteq> []"
  shows "\<exists>n. norm_f64 vec = Inr n
       \<and> tracks (length vec + 2) (sqrt (sum_list (map (\<lambda>v. v * v) (map snd (reals vec))))) n
       \<and> pow2 (- 200) \<le> sqrt (sum_list (map (\<lambda>v. v * v) (map snd (reals vec))))
       \<and> sqrt (sum_list (map (\<lambda>v. v * v) (map snd (reals vec)))) \<le> pow2 210"
proof -
  let ?S = "sum_list (map (\<lambda>v. v * v) (map snd (reals vec)))"
  from squares_tracks[OF assms]
  have t: "tracks (length vec + 1) ?S (sum_f64 (map (\<lambda>v. fmul v v) (map snd vec)))"
    and lo: "pow2 (- 400) \<le> ?S" and hi: "?S \<le> pow2 420" by simp_all
  have "sqrt (pow2 (2 * (- 200))) \<le> sqrt ?S" using lo by (simp only: real_sqrt_le_iff) simp
  then have slo: "pow2 (- 200) \<le> sqrt ?S" by (simp only: sqrt_pow2_even)
  have "sqrt ?S \<le> sqrt (pow2 (2 * 210))" using hi by (simp only: real_sqrt_le_iff) simp
  then have shi: "sqrt ?S \<le> pow2 210" by (simp only: sqrt_pow2_even)
  have "pow2 (- 1021) \<le> pow2 (- 200)" "pow2 210 \<le> pow2 1022" by (intro pow2_mono; simp)+
  with slo shi have r: "in_range (sqrt ?S)" unfolding in_range_def by linarith
  have l: "length vec \<le> 2 ^ 20" using assms(1) by (simp add: moderate_def)
  then have k: "length vec + 1 \<le> 2 ^ 52" by simp
  from fsqrt_tracks[OF t k r] obtain n where
    "fsqrt (sum_f64 (map (\<lambda>v. fmul v v) (map snd vec))) = Inr n" "tracks (Suc (length vec + 1)) (sqrt ?S) n"
    by blast
  with slo shi show ?thesis by (auto simp: norm_f64_def)
qed

lemma pow2_diff: "pow2 a / pow2 b = pow2 (a - b)"
proof -
  have "pow2 a = pow2 (a - b + b)" by simp
  also have "\<dots> = pow2 (a - b) * pow2 b" by (simp only: pow2_add)
  finally have "pow2 a = pow2 (a - b) * pow2 b" .
  moreover have "pow2 b \<noteq> 0" using pow2_pos[of b] by linarith
  ultimately show ?thesis by simp
qed

lemma moderate_term_vector:
  assumes "moderate vec"
  shows "term_vector (reals vec)"
proof -
  have d: "is_dict (reals vec)" using assms by (simp add: moderate_def is_dict_def)
  have "0 \<le> x" if "(w, x) \<in> set (reals vec)" for w x
  proof -
    from that obtain v where "(w, v) \<in> set vec" and x: "x = real_of v"
      by (auto simp: reals_def)
    with assms have "moderate_weight v" by (auto intro: moderate_member)
    then obtain y where "v = Finite y" "pow2 (- 200) \<le> y" by (rule moderate_weightE)
    moreover from this have "0 \<le> y" using pow2_pos[of "- 200"] by linarith
    ultimately show ?thesis by (simp add: x real_of_def)
  qed
  with d show ?thesis by (auto simp: term_vector_def list_all_iff)
qed

lemma cosine_tracks:
  assumes "moderate vec1" and "moderate vec2" and "vec1 \<noteq> []" and "vec2 \<noteq> []"
  shows "\<exists>c r. cosine_similarity (reals vec1) (reals vec2) = Inr c
             \<and> cosine_similarity_f64 vec1 vec2 = Inr (Finite r)
             \<and> approx (roundings (length vec1) (length vec2)) c r"
proof -
  let ?S1 = "sum_list (map (\<lambda>v. v * v) (map snd (reals vec1)))"
  let ?S2 = "sum_list (map (\<lambda>v. v * v) (map snd (reals vec2)))"
  let ?N1 = "sqrt ?S1"
  let ?N2 = "sqrt ?S2"
  have l1: "length vec1 \<le> 2 ^ 20" and l2: "length vec2 \<le> 2 ^ 20"
    using assms(1,2) by (simp_all add: moderate_def)
  from norm_tracks[OF assms(1,3)] obtain n1 where
    n1: "norm_f64 vec1 = Inr n1" "tracks (length vec1 + 2) ?N1 n1" "pow2 (- 200) \<le> ?N1" "?N1 \<le> pow2 210"
    by blast
  from norm_tracks[OF assms(2,4)] obtain n2 where
    n2: "norm_f64 vec2 = Inr n2" "tracks (length vec2 + 2) ?N2 n2" "pow2 (- 200) \<le> ?N2" "?N2 \<le> pow2 210"
    by blast
  have p200: "0 < pow2 (- 200)" by simp
  have N1pos: "0 < ?N1" using n1(3) p200 by linarith
  have N2pos: "0 < ?N2" using n2(3) p200 by linarith
  have Npos: "0 < ?N1 * ?N2" using N1pos N2pos by simp
  have "pow2 (- 200) * pow2 (- 200) \<le> ?N1 * ?N2"
    using n1(3) n2(3) N1pos by (intro mult_mono less_imp_le[OF p200]) simp_all
  then have Nlo: "pow2 (- 400) \<le> ?N1 * ?N2" by (simp add: pow2_sq)
  have "?N1 * ?N2 \<le> pow2 210 * pow2 210"
    using n1(4) n2(4) N2pos by (intro mult_mono) (simp_all add: less_imp_le)
  then have Nhi: "?N1 * ?N2 \<le> pow2 420" by (simp add: pow2_sq)
  have "pow2 (- 1021) \<le> pow2 (- 400)" "pow2 420 \<le> pow2 1022" by (intro pow2_mono; simp)+
  with Nlo Nhi have Nr: "in_range (?N1 * ?N2)" unfolding in_range_def by linarith
  have "length vec1 + 2 + (length vec2 + 2) \<le> 2 ^ 52" using l1 l2 by simp
  with n1(2) n2(2) have pt: "tracks (Suc (length vec1 + 2 + (length vec2 + 2))) (?N1 * ?N2) (fmul n1 n2)"
    using Nr by (intro fmul_tracks)
  define items other where "items = (if length vec1 < length vec2 then vec1 else vec2)"
    and "other = (if length vec1 < length vec2 then vec2 else vec1)"
  have mi: "moderate items" and mo: "moderate other"
    using assms(1,2) by (simp_all add: items_def other_def)
  have li: "length items = min (length vec1) (length vec2)" by (simp add: items_def)
  let ?D = "sum_list (map (\<lambda>(w, x). x * dict_get (reals other) w 0) (reals items))"
  from dot_tracks[OF mi mo]
  have dt: "tracks (length items + 1) ?D (dot_f64 items other)"
    and Dlo: "?D = 0 \<or> pow2 (- 400) \<le> ?D" and Dhi: "?D \<le> 2 ^ 20 * pow2 400" by simp_all
  have Dhi': "?D \<le> pow2 420" using Dhi by (simp only: pow2_20)
  have dotf: "(if length vec1 < length vec2 then dot_f64 vec1 vec2 else dot_f64 vec2 vec1) = dot_f64 items other"
    by (simp add: items_def other_def)
  have p400: "0 < pow2 (- 400)" by simp
  have Dnn: "0 \<le> ?D" using Dlo p400 by linarith
  have qlo: "?D / (?N1 * ?N2) = 0 \<or> pow2 (- 820) \<le> ?D / (?N1 * ?N2)"
  proof (cases "?D = 0")
    case True
    then show ?thesis by simp
  next
    case False
    with Dlo have "pow2 (- 400) \<le> ?D" by simp
    then have "pow2 (- 400) / pow2 420 \<le> ?D / (?N1 * ?N2)"
      using Dnn Nhi Npos by (intro frac_le)
    then show ?thesis by (simp add: pow2_diff)
  qed
  have "?D / (?N1 * ?N2) \<le> pow2 420 / pow2 (- 400)"
    using Dhi' Nlo p400 by (intro frac_le less_imp_le[OF pow2_pos])
  then have qhi: "?D / (?N1 * ?N2) \<le> pow2 820" by (simp add: pow2_diff)
  have "pow2 (- 1021) \<le> pow2 (- 820)" "pow2 820 \<le> pow2 1022" by (intro pow2_mono; simp)+
  with qlo qhi have qr: "in_range (?D / (?N1 * ?N2))" unfolding in_range_def by linarith
  have kk: "length items + 1 + Suc (length vec1 + 2 + (length vec2 + 2)) \<le> 2 ^ 52"
    using l1 l2 by (simp add: li)
  from fdiv_tracks[OF dt pt Npos kk qr] obtain r where
    r: "fdiv (dot_f64 items other) (fmul n1 n2) = Inr r"
       "tracks (Suc (length items + 1 + Suc (length vec1 + 2 + (length vec2 + 2)))) (?D / (?N1 * ?N2)) r"
    by blast
  from r(2) obtain y where y: "r = Finite y"
    "approx (Suc (length items + 1 + Suc (length vec1 + 2 + (length vec2 + 2)))) (?D / (?N1 * ?N2)) y"
    by (rule tracksE)
  have K: "Suc (length items + 1 + Suc (length vec1 + 2 + (length vec2 + 2))) = roundings (length vec1) (length vec2)"
    by (simp add: roundings_def li)
  from n1(2) obtain y1 where y1: "n1 = Finite y1" "approx (length vec1 + 2) ?N1 y1" by (rule tracksE)
  from n2(2) obtain y2 where y2: "n2 = Finite y2" "approx (length vec2 + 2) ?N2 y2" by (rule tracksE)
  have "0 < y1" "0 < y2" using approx_pos[OF y1(2) N1pos] approx_pos[OF y2(2) N2pos] by simp_all
  then have nz: "\<not> feq n1 (Finite 0)" "\<not> feq n2 (Finite 0)" by (simp_all add: y1(1) y2(1))
  have f64: "cosine_similarity_f64 vec1 vec2 = Inr (Finite y)"
    unfolding cosine_f64_unfold[OF n1(1) n2(1)] dotf using assms(3,4) nz r(1) y(1) by simp
  have S1: "\<not> ?S1 < 0" and S2: "\<not> ?S2 < 0"
    using squares_nonneg[of "map snd (reals vec1)"] squares_nonneg[of "map snd (reals vec2)"] by simp_all
  have exdot: "(if length (reals vec1) < length (reals vec2)
           then fold (\<lambda>(word, val) dot. dot + val * dict_get (reals vec2) word 0) (reals vec1) 0
           else fold (\<lambda>(word, val) dot. dot + val * dict_get (reals vec1) word 0) (reals vec2) 0) = ?D"
    by (simp add: fold_dot_sum items_def other_def)
  have N1nz: "?N1 \<noteq> 0" and N2nz: "?N2 \<noteq> 0" and Nnz: "?N1 * ?N2 \<noteq> 0"
    using N1pos N2pos Npos by simp_all
  have ex: "cosine_similarity (reals vec1) (reals vec2) = Inr (?D / (?N1 * ?N2))"
    unfolding cosine_similarity_def Let_def exdot
    using assms(3,4) S1 S2 N1nz N2nz Nnz by (simp add: py_sqrt_def py_div_def)
  from ex f64 y(2) K show ?thesis by auto
qed

lemma roundings_commute: "roundings m n = roundings n m"
  by (simp add: roundings_def min.commute)

lemma cosine_f64_bound:
  assumes "moderate vec1" and "moderate vec2"
  shows "\<exists>r s. cosine_similarity_f64 vec1 vec2 = Inr (Finite r)
       \<and> cosine_similarity_f64 vec2 vec1 = Inr (Finite s)
       \<and> 0 \<le> r
       \<and> r * (1 - unit_roundoff) ^ roundings (length vec1) (length vec2) \<le> 1
       \<and> r * (1 - unit_roundoff) ^ (2 * roundings (length vec1) (length vec2)) \<le> s"
proof (cases "vec1 = [] \<or> vec2 = []")
  case True
  then have "cosine_similarity_f64 vec1 vec2 = Inr (Finite 0)" "cosine_similarity_f64 vec2 vec1 = Inr (Finite 0)"
    by (auto simp: cosine_similarity_f64_def)
  then show ?thesis by simp
next
  case False
  then have ne: "vec1 \<noteq> []" "vec2 \<noteq> []" by simp_all
  let ?K = "roundings (length vec1) (length vec2)"
  let ?w = "1 - unit_roundoff"
  from cosine_tracks[OF assms ne] obtain c r where
    c: "cosine_similarity (reals vec1) (reals vec2) = Inr c"
    and r: "cosine_similarity_f64 vec1 vec2 = Inr (Finite r)" and cr: "approx ?K c r"
    by blast
  from cosine_tracks[OF assms(2,1) ne(2,1)] obtain c' s where
    c': "cosine_similarity (reals vec2) (reals vec1) = Inr c'"
    and s: "cosine_similarity_f64 vec2 vec1 = Inr (Finite s)"
    and cs': "approx (roundings (length vec2) (length vec1)) c' s"
    by blast
  have t1: "term_vector (reals vec1)" and t2: "term_vector (reals vec2)"
    using assms by (simp_all add: moderate_term_vector)
  then have d1: "is_dict (reals vec1)" and d2: "is_dict (reals vec2)" by (simp_all add: term_vector_def)
  from cosine_symmetric[OF d1 d2] c c' have "c' = c" by simp
  with cs' have cs: "approx ?K c s" by (simp add: roundings_commute)
  from cosine_unit[OF t1 t2] c have c1: "c \<le> 1" by auto
  have rnn: "0 \<le> r" using cr by (rule approx_nonneg)
  have rc: "r * ?w ^ ?K \<le> c" using cr by (simp add: approx_def)
  with c1 have b1: "r * ?w ^ ?K \<le> 1" by linarith
  have "r * ?w ^ (2 * ?K) = (r * ?w ^ ?K) * ?w ^ ?K" by (simp add: mult_2 power_add)
  also have "\<dots> \<le> c * ?w ^ ?K" using rc by (intro mult_right_mono w_pow_nonneg)
  also have "\<dots> \<le> s" using cs by (simp add: approx_def)
  finally have b2: "r * ?w ^ (2 * ?K) \<le> s" .
  from r s rnn b1 b2 show ?thesis by blast
qed

lemma moderate_ones3: "moderate ones3"
  by (simp add: moderate_def is_dict_def moderate_weight_def pow2_def ones3_def)

lemma moderate_rev4: "moderate rev4"
  by (simp add: moderate_def is_dict_def moderate_weight_def pow2_def rev4_def)

text \<open>
  Claim C6, as it holds of the double-precision function. \<open>_cosine_similarity\<close> never
  raises, whatever doubles the two dictionaries hold (infinities and NaN included): the
  argument of \<open>math.sqrt\<close> is never negative and the divisor is never zero. It returns 0
  when a vector is empty or a computed norm is 0, which is the case when every weight is 0.
  When the two vectors have different numbers of keys, \<open>sim(a, b)\<close> and \<open>sim(b, a)\<close> are
  the same double, and \<open>sim(a, b) == sim(b, a)\<close> unless that double is NaN. When no weight
  is negative the result is not negative: it is a double that is at least 0, or NaN.
  Between vectors with the same number of keys the two orders can differ, and the result
  can exceed 1 (see the counterexample below), but only by rounding error: on moderate
  vectors of \<open>m\<close> and \<open>n\<close> keys the result \<open>r\<close> is a finite double with
  \<open>0 \<le> r \<le> 1 / (1 - 2\<^sup>-\<^sup>5\<^sup>3)\<^sup>k\<close>, where \<open>k = m + n + min m n + 7\<close>, and the result \<open>s\<close> of
  the swapped call satisfies \<open>r * (1 - 2\<^sup>-\<^sup>5\<^sup>3)\<^sup>2\<^sup>k \<le> s\<close>, and the same with \<open>r\<close> and \<open>s\<close>
  exchanged, by the theorem applied to the swapped vectors.
\<close>

theorem C6_cosine_similarity:
  "(\<exists>r. cosine_similarity_f64 vec1 vec2 = Inr r)
    \<and> (vec1 = [] \<or> vec2 = [] \<or> norm_f64 vec1 = Inr (Finite 0) \<or> norm_f64 vec2 = Inr (Finite 0)
       \<longrightarrow> cosine_similarity_f64 vec1 vec2 = Inr (Finite 0))
    \<and> (list_all (\<lambda>(w, v). v = Finite 0) vec1 \<longrightarrow> norm_f64 vec1 = Inr (Finite 0))
    \<and> (length vec1 \<noteq> length vec2
       \<longrightarrow> cosine_similarity_f64 vec1 vec2 = cosine_similarity_f64 vec2 vec1
         \<and> (\<forall>r s. cosine_similarity_f64 vec1 vec2 = Inr r \<and> cosine_similarity_f64 vec2 vec1 = Inr s
                \<and> r \<noteq> NaN \<longrightarrow> feq r s))
    \<and> (weights_not_negative vec1 \<and> weights_not_negative vec2
       \<longrightarrow> (\<forall>r. cosine_similarity_f64 vec1 vec2 = Inr r \<longrightarrow> fle (Finite 0) r \<or> r = NaN))
    \<and> (moderate vec1 \<and> moderate vec2
       \<longrightarrow> (\<exists>r s. cosine_similarity_f64 vec1 vec2 = Inr (Finite r)
             \<and> cosine_similarity_f64 vec2 vec1 = Inr (Finite s)
             \<and> 0 \<le> r
             \<and> r * (1 - unit_roundoff) ^ roundings (length vec1) (length vec2) \<le> 1
             \<and> r * (1 - unit_roundoff) ^ (2 * roundings (length vec1) (length vec2)) \<le> s))"
proof (intro conjI impI allI)
  show "\<exists>r. cosine_similarity_f64 vec1 vec2 = Inr r" by (rule cosine_f64_total)
next
  assume "vec1 = [] \<or> vec2 = [] \<or> norm_f64 vec1 = Inr (Finite 0) \<or> norm_f64 vec2 = Inr (Finite 0)"
  then show "cosine_similarity_f64 vec1 vec2 = Inr (Finite 0)" by (rule cosine_f64_zero)
next
  assume "list_all (\<lambda>(w, v). v = Finite 0) vec1"
  then show "norm_f64 vec1 = Inr (Finite 0)" by (rule norm_f64_zero)
next
  assume "length vec1 \<noteq> length vec2"
  then show "cosine_similarity_f64 vec1 vec2 = cosine_similarity_f64 vec2 vec1"
    by (rule cosine_f64_swap)
next
  fix r s
  assume l: "length vec1 \<noteq> length vec2"
    and "cosine_similarity_f64 vec1 vec2 = Inr r \<and> cosine_similarity_f64 vec2 vec1 = Inr s \<and> r \<noteq> NaN"
  with cosine_f64_swap[OF l] have "s = r" "r \<noteq> NaN" by simp_all
  then show "feq r s" by (cases r) simp_all
next
  fix r
  assume "weights_not_negative vec1 \<and> weights_not_negative vec2"
    and "cosine_similarity_f64 vec1 vec2 = Inr r"
  then have "not_negative r" by (intro cosine_f64_not_negative[of vec1 vec2]) simp_all
  then show "fle (Finite 0) r \<or> r = NaN" by (cases r) simp_all
next
  assume "moderate vec1 \<and> moderate vec2"
  then show "\<exists>r s. cosine_similarity_f64 vec1 vec2 = Inr (Finite r)
             \<and> cosine_similarity_f64 vec2 vec1 = Inr (Finite s)
             \<and> 0 \<le> r
             \<and> r * (1 - unit_roundoff) ^ roundings (length vec1) (length vec2) \<le> 1
             \<and> r * (1 - unit_roundoff) ^ (2 * roundings (length vec1) (length vec2)) \<le> s"
    by (intro cosine_f64_bound) simp_all
qed

theorem C6_cosine_similarity_witness:
  "length ones3 \<noteq> length rev4 \<and> weights_not_negative ones3 \<and> weights_not_negative rev4
   \<and> moderate ones3 \<and> moderate rev4
   \<and> cosine_similarity_f64 ones3 rev4 = Inr (Finite (7800463371553963 / 2 ^ 53))
   \<and> cosine_similarity_f64 rev4 ones3 = Inr (Finite (7800463371553963 / 2 ^ 53))
   \<and> feq (Finite (7800463371553963 / 2 ^ 53)) (Finite (7800463371553963 / 2 ^ 53))
   \<and> fle (Finite 0) (Finite (7800463371553963 / 2 ^ 53))
   \<and> 7800463371553963 / 2 ^ 53 * (1 - unit_roundoff) ^ roundings (length ones3) (length rev4) \<le> 1
   \<and> list_all (\<lambda>(w, v). v = Finite 0) [(''x'', Finite 0)]
   \<and> norm_f64 [(''x'', Finite 0)] = Inr (Finite 0)
   \<and> cosine_similarity_f64 [(''x'', Finite 0)] rev4 = Inr (Finite 0)
   \<and> cosine_similarity_f64 [] rev4 = Inr (Finite 0)"
proof -
  have l: "length ones3 \<noteq> length rev4" by (simp add: ones3_def rev4_def)
  have w: "weights_not_negative ones3" "weights_not_negative rev4"
    by (simp_all add: weights_not_negative_def is_nonneg_def ones3_def rev4_def)
  have m: "moderate ones3" "moderate rev4"
    by (simp_all add: moderate_def is_dict_def moderate_weight_def pow2_def ones3_def rev4_def)
  note a = C6_cosine_similarity[of ones3 rev4]
  from a l have sw: "cosine_similarity_f64 ones3 rev4 = cosine_similarity_f64 rev4 ones3"
    by (simp only: simp_thms)
  have v: "cosine_similarity_f64 ones3 rev4 = Inr (Finite (7800463371553963 / 2 ^ 53))"
    by (rule cos_ones3_rev4)
  from a m have "\<exists>r s. cosine_similarity_f64 ones3 rev4 = Inr (Finite r)
             \<and> cosine_similarity_f64 rev4 ones3 = Inr (Finite s)
             \<and> 0 \<le> r
             \<and> r * (1 - unit_roundoff) ^ roundings (length ones3) (length rev4) \<le> 1
             \<and> r * (1 - unit_roundoff) ^ (2 * roundings (length ones3) (length rev4)) \<le> s"
    by (simp only: simp_thms)
  then obtain r s where rs: "cosine_similarity_f64 ones3 rev4 = Inr (Finite r)"
    "r * (1 - unit_roundoff) ^ roundings (length ones3) (length rev4) \<le> 1" by blast
  from rs(1) v have "r = 7800463371553963 / 2 ^ 53" by simp
  with rs(2) have bd: "7800463371553963 / 2 ^ 53 * (1 - unit_roundoff) ^ roundings (length ones3) (length rev4) \<le> 1"
    by simp
  have z: "list_all (\<lambda>(w, v). v = Finite 0) [(''x'', Finite 0)]" by simp
  note b = C6_cosine_similarity[of "[(''x'', Finite 0)]" rev4]
  from b z have n0: "norm_f64 [(''x'', Finite 0)] = Inr (Finite 0)" by (simp only: simp_thms)
  from b n0 have c0: "cosine_similarity_f64 [(''x'', Finite 0)] rev4 = Inr (Finite 0)"
    by (simp only: simp_thms)
  from C6_cosine_similarity[of "[]" rev4]
  have e0: "cosine_similarity_f64 [] rev4 = Inr (Finite 0)" by (simp only: simp_thms)
  from l w m v sw bd z n0 c0 e0 show ?thesis by simp
qed

text \<open>
  The claim as the spec states it is false of the code. The vector with weight 1 on three
  terms has similarity \<open>1.0000000000000002\<close> with itself: the norm is the rounded square
  root of 3, its square rounds to \<open>3 - 2\<^sup>-\<^sup>5\<^sup>1\<close>, and 3 divided by that rounds up. And two
  vectors over the same four keys, one of them with the weight \<open>2\<^sup>5\<^sup>3\<close> on its first key,
  have similarity \<open>0.5000000000000002\<close> in one order and \<open>0.5\<close> in the other: with equal
  lengths the dot product runs over the second argument's keys, in its order, and adding
  1 three times to \<open>2\<^sup>5\<^sup>3\<close> is lost to rounding while adding \<open>2\<^sup>5\<^sup>3\<close> to 3 is not.
\<close>

theorem C6_cosine_similarity_counterexample:
  "weights_not_negative ones3 \<and> weights_not_negative big4 \<and> weights_not_negative rev4
   \<and> round64 1 = Finite 1 \<and> round64 (2 ^ 53) = Finite (2 ^ 53)
   \<and> cosine_similarity_f64 ones3 ones3 = Inr (Finite (1 + 1 / 2 ^ 52))
   \<and> \<not> fle (Finite (1 + 1 / 2 ^ 52)) (Finite 1)
   \<and> cosine_similarity_f64 big4 rev4 = Inr (Finite (1 / 2 + 1 / 2 ^ 52))
   \<and> cosine_similarity_f64 rev4 big4 = Inr (Finite (1 / 2))
   \<and> \<not> feq (Finite (1 / 2 + 1 / 2 ^ 52)) (Finite (1 / 2))"
proof -
  have w: "weights_not_negative ones3" "weights_not_negative big4" "weights_not_negative rev4"
    by (simp_all add: weights_not_negative_def is_nonneg_def ones3_def rev4_def big4_def)
  have f: "\<not> fle (Finite (1 + 1 / 2 ^ 52)) (Finite 1)"
    "\<not> feq (Finite (1 / 2 + 1 / 2 ^ 52)) (Finite (1 / 2))" by simp_all
  from w f r1 r53 cos_ones3 cos_big4_rev4 cos_rev4_big4 show ?thesis by (simp only: simp_thms)
qed

lemma set_update_subset: "set (AList.update k v al) \<subseteq> insert (k, v) (set al)"
  by (induction al) auto

lemma compute_tf_total: "\<exists>tf. compute_tf words = Inr tf"
proof (cases "words = []")
  case True
  then show ?thesis by (simp add: compute_tf_def)
next
  case False
  have "\<forall>p\<in>set (counter words). \<exists>y.
      (case p of (w, c) \<Rightarrow> bind_r (py_div (real c) (real (length words))) (\<lambda>q. Inr (w, q))) = Inr y"
    using False by (auto simp: py_div_def)
  then show ?thesis
    using False by (simp add: compute_tf_def Let_def traverse_total)
qed

lemma compute_idf_total: "\<exists>idf. compute_idf doc_tokens = Inr idf"
proof -
  have "\<exists>y. bind_r (py_div (real (1 + n)) (real (1 + dc)))
        (\<lambda>q. bind_r (py_log q) (\<lambda>l. Inr (token, l + 1))) = Inr y" for n dc :: nat and token :: string
  proof -
    have "0 < real (1 + n) / real (1 + dc)" by simp
    then have "py_log (real (1 + n) / real (1 + dc)) = Inr (ln (real (1 + n) / real (1 + dc)))"
      unfolding py_log_def by (simp only: not_le[symmetric] if_False)
    moreover have "py_div (real (1 + n)) (real (1 + dc)) = Inr (real (1 + n) / real (1 + dc))"
      by (simp add: py_div_def)
    ultimately show ?thesis by simp
  qed
  then show ?thesis
    unfolding compute_idf_def Let_def by (intro traverse_total) auto
qed

lemma semantic_total:
  "\<exists>sims. compute_semantic_similarity sections query = Inr sims \<and> length sims = length sections"
proof -
  let ?st = "map (\<lambda>sec. tokenize (section_text sec)) sections"
  obtain idf where idf: "compute_idf (tokenize query # ?st) = Inr idf"
    using compute_idf_total[of "tokenize query # ?st"] by auto
  obtain qtf where qtf: "compute_tf (tokenize query) = Inr qtf"
    using compute_tf_total[of "tokenize query"] by auto
  let ?f = "\<lambda>tokens. bind_r (compute_tf tokens)
      (\<lambda>tf. cosine_similarity (compute_tfidf_vector tf idf) (compute_tfidf_vector qtf idf))"
  have one: "\<exists>y. ?f tokens = Inr y" for tokens
  proof -
    obtain tf where tf: "compute_tf tokens = Inr tf"
      using compute_tf_total[of tokens] by auto
    obtain r where "cosine_similarity (compute_tfidf_vector tf idf) (compute_tfidf_vector qtf idf) = Inr r"
      using cosine_total[of "compute_tfidf_vector tf idf" "compute_tfidf_vector qtf idf"] by auto
    with tf show ?thesis by simp
  qed
  have "\<forall>x\<in>set ?st. \<exists>y. ?f x = Inr y" using one by auto
  then have "\<exists>ys. traverse ?f ?st = Inr ys" by (rule traverse_total)
  then obtain sims where s: "traverse ?f ?st = Inr sims" by auto
  then have "length sims = length ?st" by (rule traverse_length)
  then have l: "length sims = length sections" by simp
  have "compute_semantic_similarity sections query = Inr sims"
    unfolding compute_semantic_similarity_def Let_def idf bind_r_Inr qtf s ..
  with l show ?thesis by blast
qed

lemma persona_total:
  "\<exists>scores. compute_persona_match sections persona_role = Inr scores
     \<and> length scores = length sections"
proof -
  let ?pw = "set (str_split (clean_text persona_role))"
  let ?f = "\<lambda>sec :: doc_sect.
          let sec_words = set (str_split (clean_text (section_text sec))) in
          if ?pw = {} \<or> sec_words = {} then Inr 0
          else py_div (real (card (?pw \<inter> sec_words))) (real (card ?pw))"
  have "\<forall>sec\<in>set sections. \<exists>y. ?f sec = Inr y"
    by (simp add: Let_def py_div_def)
  then have "\<exists>ys. traverse ?f sections = Inr ys" by (rule traverse_total)
  then obtain scores where s: "traverse ?f sections = Inr scores" by auto
  then have "length scores = length sections" by (rule traverse_length)
  moreover have "compute_persona_match sections persona_role = Inr scores"
    unfolding compute_persona_match_def using s by (simp only: Let_def)
  ultimately show ?thesis by blast
qed

lemma actionability_total:
  "\<exists>scores. compute_actionability sections = Inr scores \<and> length scores = length sections"
proof -
  let ?f = "\<lambda>sec :: doc_sect.
         let words = str_split (clean_text (section_text sec)) in
         if words = [] then Inr 0
         else
           let action_count = length (filter (\<lambda>w. w \<in> set ACTION_VERBS) words) in
           py_div (real action_count) (real (length words))"
  have "\<forall>sec\<in>set sections. \<exists>y. ?f sec = Inr y"
    by (simp add: Let_def py_div_def)
  then have "\<exists>ys. traverse ?f sections = Inr ys" by (rule traverse_total)
  then obtain scores where s: "traverse ?f sections = Inr scores" by auto
  then have "length scores = length sections" by (rule traverse_length)
  moreover have "compute_actionability sections = Inr scores"
    unfolding compute_actionability_def using s by (simp only: Let_def)
  ultimately show ?thesis by blast
qed

lemma title_docs_inv_fold:
  assumes "\<forall>(t, ds)\<in>set m. finite ds \<and> ds \<noteq> {}"
  shows "\<forall>(t, ds)\<in>set (fold (\<lambda>sec title_counts.
             AList.update (section_title sec)
               (insert (document sec) (dict_get title_counts (section_title sec) {}))
               title_counts) (sections :: doc_sect list) m). finite ds \<and> ds \<noteq> {}"
  using assms
proof (induction sections arbitrary: m)
  case Nil
  then show ?case by simp
next
  case (Cons sec sections)
  let ?old = "dict_get m (section_title sec) {}"
  have fo: "finite ?old"
  proof (cases "map_of m (section_title sec)")
    case None
    then show ?thesis by (simp add: dict_get_def)
  next
    case (Some ds)
    then have "(section_title sec, ds) \<in> set m" by (rule map_of_SomeD)
    with Cons.prems have "finite ds" by auto
    with Some show ?thesis by (simp add: dict_get_def)
  qed
  have "\<forall>(t, ds)\<in>set (AList.update (section_title sec) (insert (document sec) ?old) m).
      finite ds \<and> ds \<noteq> {}"
    using set_update_subset[of "section_title sec" "insert (document sec) ?old" m] Cons.prems fo
    by auto
  from Cons.IH[OF this] show ?case by simp
qed

lemma title_docs_inv: "(t, ds) \<in> set (title_docs sections) \<Longrightarrow> finite ds \<and> ds \<noteq> {}"
  using title_docs_inv_fold[of "[]" sections] unfolding title_docs_def by auto

lemma cross_doc_total:
  "\<exists>scores. compute_cross_document_importance sections = Inr scores
     \<and> length scores = length sections"
proof -
  let ?fm = "map (\<lambda>(title, docs). (title, card docs)) (title_docs sections)"
  have pos: "0 < c" if "c \<in> set (map snd ?fm)" for c
  proof -
    from that obtain t ds where m: "(t, ds) \<in> set (title_docs sections)" and c: "c = card ds"
      by auto
    from m have "finite ds \<and> ds \<noteq> {}" by (rule title_docs_inv)
    then show ?thesis using c by (simp add: card_gt_0_iff)
  qed
  obtain mf where mf: "(if ?fm \<noteq> [] then py_max (map snd ?fm) else Inr 1) = Inr mf" and "0 < mf"
  proof (cases "?fm = []")
    case True
    then show ?thesis using that[of 1] by simp
  next
    case False
    then have ne: "map snd ?fm \<noteq> []" by simp
    then have "Max (set (map snd ?fm)) \<in> set (map snd ?fm)" by (intro Max_in) simp_all
    then have "0 < Max (set (map snd ?fm))" by (rule pos)
    then show ?thesis using that[of "Max (set (map snd ?fm))"] False py_max_Max[OF ne] by simp
  qed
  let ?f = "\<lambda>sec :: doc_sect. let freq = dict_get ?fm (section_title sec) 1 in
      py_div (real freq) (real mf)"
  have "\<forall>sec\<in>set sections. \<exists>y. ?f sec = Inr y"
    using \<open>0 < mf\<close> by (simp add: py_div_def)
  then have "\<exists>ys. traverse ?f sections = Inr ys" by (rule traverse_total)
  then obtain scores where s: "traverse ?f sections = Inr scores" by auto
  then have "length scores = length sections" by (rule traverse_length)
  moreover have "compute_cross_document_importance sections = Inr scores"
    unfolding compute_cross_document_importance_def Let_def using mf s by simp
  ultimately show ?thesis by blast
qed

lemma normalise_total:
  "\<exists>out. normalise arr = Inr out \<and> length out = length arr \<and> (\<forall>x\<in>set out. 0 \<le> x \<and> x \<le> 1)"
proof (cases "arr = []")
  case True
  then show ?thesis by (simp add: normalise_def)
next
  case ne: False
  show ?thesis
  proof (cases "\<forall>x\<in>set arr. x = hd arr")
    case True
    with ne have "normalise arr = Inr (replicate (length arr) 0)" by (rule normalise_constant)
    then show ?thesis by simp
  next
    case False
    with ne have n: "normalise arr =
        Inr (map (\<lambda>x. (x - Min (set arr)) / (Max (set arr) - Min (set arr))) arr)"
      by (rule normalise_spread)
    have "Max (set arr) \<noteq> Min (set arr)" using False Max_eq_Min_iff[OF ne] by blast
    then have "\<forall>x\<in>set arr. 0 \<le> (x - Min (set arr)) / (Max (set arr) - Min (set arr))
        \<and> (x - Min (set arr)) / (Max (set arr) - Min (set arr)) \<le> 1"
      using minmax_unit by blast
    with n show ?thesis by auto
  qed
qed

lemma weighted_unit:
  assumes "0 \<le> s \<and> s \<le> 1" and "0 \<le> p \<and> p \<le> 1" and "0 \<le> a \<and> a \<le> 1" and "0 \<le> c \<and> c \<le> (1::real)"
  shows "0 \<le> WEIGHT_SEMANTIC * s + WEIGHT_PERSONA * p + WEIGHT_ACTION * a + WEIGHT_CROSS_DOC * c
       \<and> WEIGHT_SEMANTIC * s + WEIGHT_PERSONA * p + WEIGHT_ACTION * a + WEIGHT_CROSS_DOC * c \<le> 1"
  using assms
  by (simp add: WEIGHT_SEMANTIC_def WEIGHT_PERSONA_def WEIGHT_ACTION_def WEIGHT_CROSS_DOC_def)

lemma normalised_signal:
  assumes "\<exists>raw. m = Inr raw \<and> length raw = n"
  shows "\<exists>out. bind_r m normalise = Inr out \<and> length out = n \<and> (\<forall>x\<in>set out. 0 \<le> x \<and> x \<le> 1)"
proof -
  from assms obtain raw where r: "m = Inr raw" "length raw = n" by auto
  from normalise_total[of raw] obtain out
    where "normalise raw = Inr out" "length out = length raw" "\<forall>x\<in>set out. 0 \<le> x \<and> x \<le> 1"
    by auto
  with r show ?thesis by simp
qed

lemma relevance_scores_explicit:
  fixes sections :: "doc_sect list"
  defines "n \<equiv> length sections"
  shows "\<exists>sem pers_n act cross scores.
      bind_r (compute_semantic_similarity sections
          (str_strip (get_str (role pers) @ '' '' @ get_str (description pers) @ '' ''
             @ get_str (task jb)))) normalise = Inr sem
    \<and> bind_r (compute_persona_match sections
          (get_str (role pers) @ '' '' @ get_str (description pers))) normalise = Inr pers_n
    \<and> bind_r (compute_actionability sections) normalise = Inr act
    \<and> bind_r (compute_cross_document_importance sections) normalise = Inr cross
    \<and> compute_relevance_scores sections pers jb = Inr scores
    \<and> length scores = n
    \<and> (\<forall>i<n. scores ! i = 40 / 100 * sem ! i + 25 / 100 * pers_n ! i
                             + 20 / 100 * act ! i + 15 / 100 * cross ! i
             \<and> 0 \<le> scores ! i \<and> scores ! i \<le> 1)"
proof -
  let ?q = "str_strip (get_str (role pers) @ '' '' @ get_str (description pers) @ '' ''
             @ get_str (task jb))"
  let ?pr = "get_str (role pers) @ '' '' @ get_str (description pers)"
  obtain sem where sem: "bind_r (compute_semantic_similarity sections ?q) normalise = Inr sem"
      "length sem = n" "\<forall>x\<in>set sem. 0 \<le> x \<and> x \<le> 1"
    using normalised_signal[OF semantic_total[of sections ?q]] unfolding n_def by auto
  obtain pn where pn: "bind_r (compute_persona_match sections ?pr) normalise = Inr pn"
      "length pn = n" "\<forall>x\<in>set pn. 0 \<le> x \<and> x \<le> 1"
    using normalised_signal[OF persona_total[of sections ?pr]] unfolding n_def by auto
  obtain act where act: "bind_r (compute_actionability sections) normalise = Inr act"
      "length act = n" "\<forall>x\<in>set act. 0 \<le> x \<and> x \<le> 1"
    using normalised_signal[OF actionability_total[of sections]] unfolding n_def by auto
  obtain cross where cross: "bind_r (compute_cross_document_importance sections) normalise = Inr cross"
      "length cross = n" "\<forall>x\<in>set cross. 0 \<le> x \<and> x \<le> 1"
    using normalised_signal[OF cross_doc_total[of sections]] unfolding n_def by auto
  let ?g = "\<lambda>i. WEIGHT_SEMANTIC * sem ! i + WEIGHT_PERSONA * pn ! i
                + WEIGHT_ACTION * act ! i + WEIGHT_CROSS_DOC * cross ! i"
  let ?f = "\<lambda>i. bind_r (py_index sem i) (\<lambda>s.
            bind_r (py_index pn i) (\<lambda>p.
            bind_r (py_index act i) (\<lambda>a.
            bind_r (py_index cross i) (\<lambda>c.
              Inr (WEIGHT_SEMANTIC * s + WEIGHT_PERSONA * p
                   + WEIGHT_ACTION * a + WEIGHT_CROSS_DOC * c)))))"
  have "\<forall>i\<in>set [0..<n]. ?f i = Inr (?g i)"
    using sem(2) pn(2) act(2) cross(2) by (simp add: py_index_def)
  then have tr: "traverse ?f [0..<n] = Inr (map ?g [0..<n])" by (rule traverse_map)
  obtain r1 where r1: "compute_semantic_similarity sections ?q = Inr r1" "normalise r1 = Inr sem"
    using sem(1) by (cases "compute_semantic_similarity sections ?q") auto
  obtain r2 where r2: "compute_persona_match sections ?pr = Inr r2" "normalise r2 = Inr pn"
    using pn(1) by (cases "compute_persona_match sections ?pr") auto
  obtain r3 where r3: "compute_actionability sections = Inr r3" "normalise r3 = Inr act"
    using act(1) by (cases "compute_actionability sections") auto
  obtain r4 where r4: "compute_cross_document_importance sections = Inr r4" "normalise r4 = Inr cross"
    using cross(1) by (cases "compute_cross_document_importance sections") auto
  have res: "compute_relevance_scores sections pers jb = Inr (map ?g [0..<n])"
    unfolding compute_relevance_scores_def Let_def r1 r2 r3 r4 bind_r_Inr n_def[symmetric] tr ..
  have unit: "0 \<le> ?g i \<and> ?g i \<le> 1" if "i < n" for i
  proof (rule weighted_unit)
    show "0 \<le> sem ! i \<and> sem ! i \<le> 1" using sem(2,3) that by simp
    show "0 \<le> pn ! i \<and> pn ! i \<le> 1" using pn(2,3) that by simp
    show "0 \<le> act ! i \<and> act ! i \<le> 1" using act(2,3) that by simp
    show "0 \<le> cross ! i \<and> cross ! i \<le> 1" using cross(2,3) that by simp
  qed
  have val: "map ?g [0..<n] ! i = 40 / 100 * sem ! i + 25 / 100 * pn ! i
                             + 20 / 100 * act ! i + 15 / 100 * cross ! i" if "i < n" for i
    using that
    by (simp add: WEIGHT_SEMANTIC_def WEIGHT_PERSONA_def WEIGHT_ACTION_def WEIGHT_CROSS_DOC_def)
  have all: "\<forall>i<n. map ?g [0..<n] ! i = 40 / 100 * sem ! i + 25 / 100 * pn ! i
                             + 20 / 100 * act ! i + 15 / 100 * cross ! i
             \<and> 0 \<le> map ?g [0..<n] ! i \<and> map ?g [0..<n] ! i \<le> 1"
  proof (intro allI impI)
    fix i assume i: "i < n"
    have "map ?g [0..<n] ! i = ?g i" using i by simp
    with val[OF i] unit[OF i] show "map ?g [0..<n] ! i = 40 / 100 * sem ! i + 25 / 100 * pn ! i
                             + 20 / 100 * act ! i + 15 / 100 * cross ! i
             \<and> 0 \<le> map ?g [0..<n] ! i \<and> map ?g [0..<n] ! i \<le> 1" by simp
  qed
  have len: "length (map ?g [0..<n]) = n" by simp
  from sem(1) pn(1) act(1) cross(1) res len all show ?thesis by blast
qed


text \<open>
  Claim C5. For every list of sections and every persona and job dictionary, with or
  without their keys, \<open>compute_relevance_scores\<close> returns one score per section, at the
  section's index; each score is
  \<open>0.40 * semantic + 0.25 * persona + 0.20 * action + 0.15 * crossDoc\<close> of the four
  min-max-normalised signals at that index, and lies between 0 and 1.
\<close>

theorem C5_relevance_scores:
  fixes sections :: "doc_sect list"
  defines "n \<equiv> length sections"
  shows "\<exists>sem pers_n act cross scores.
      bind_r (compute_semantic_similarity sections
          (str_strip (get_str (role pers) @ '' '' @ get_str (description pers) @ '' ''
             @ get_str (task jb)))) normalise = Inr sem
    \<and> bind_r (compute_persona_match sections
          (get_str (role pers) @ '' '' @ get_str (description pers))) normalise = Inr pers_n
    \<and> bind_r (compute_actionability sections) normalise = Inr act
    \<and> bind_r (compute_cross_document_importance sections) normalise = Inr cross
    \<and> compute_relevance_scores sections pers jb = Inr scores
    \<and> length scores = n
    \<and> (\<forall>i<n. scores ! i = 40 / 100 * sem ! i + 25 / 100 * pers_n ! i
                             + 20 / 100 * act ! i + 15 / 100 * cross ! i
             \<and> 0 \<le> scores ! i \<and> scores ! i \<le> 1)"
  unfolding n_def by (rule relevance_scores_explicit)

theorem C5_relevance_scores_witness:
  "\<exists>scores. compute_relevance_scores sections_example persona_example job_example = Inr scores
     \<and> length scores = 2
     \<and> 0 \<le> scores ! 0 \<and> scores ! 0 \<le> 1 \<and> 0 \<le> scores ! 1 \<and> scores ! 1 \<le> 1"
proof -
  have l: "length sections_example = 2" by (simp add: sections_example_def)
  from C5_relevance_scores[of sections_example persona_example job_example]
  obtain scores where s: "compute_relevance_scores sections_example persona_example job_example = Inr scores"
    and n: "length scores = length sections_example"
    and a: "\<forall>i<length sections_example. 0 \<le> scores ! i \<and> scores ! i \<le> 1"
    by blast
  have "(0::nat) < 2" and "(1::nat) < 2" by simp_all
  with a l have "0 \<le> scores ! 0 \<and> scores ! 0 \<le> 1" and "0 \<le> scores ! 1 \<and> scores ! 1 \<le> 1"
    by simp_all
  with s n l show ?thesis by auto
qed

section \<open>Properties of the Ranker\<close>

lemma relevance_scores_length:
  "\<exists>scores. compute_relevance_scores sections pers jb = Inr scores
     \<and> length scores = length sections"
  using relevance_scores_explicit[of sections pers jb] by blast

lemma mset_sort_desc: "mset (sort_desc key xs) = mset xs"
  by (simp add: sort_desc_def)

lemma length_sort_desc: "length (sort_desc key xs) = length xs"
  by (simp add: sort_desc_def)

lemma sort_desc_nonincreasing: "sorted_wrt (\<lambda>x y. key y \<le> key x) (sort_desc key xs)"
proof -
  have "sorted (map key (sort_key key (rev xs)))" by simp
  then have "sorted_wrt (\<lambda>x y. key x \<le> key y) (sort_key key (rev xs))"
    by (simp add: sorted_wrt_map)
  then show ?thesis
    by (simp add: sort_desc_def sorted_wrt_rev)
qed

lemma sort_desc_stable:
  "filter (\<lambda>x. key x = k) (sort_desc key xs) = filter (\<lambda>x. key x = k) xs"
proof -
  have "filter (\<lambda>x. key x = k) (sort_desc key xs)
      = rev (filter (\<lambda>x. key x = k) (sort_key key (rev xs)))"
    by (simp add: sort_desc_def rev_filter)
  also have "\<dots> = rev (filter (\<lambda>x. key x = k) (rev xs))"
    by (simp only: sort_key_stable)
  also have "\<dots> = filter (\<lambda>x. key x = k) xs"
    by (simp add: rev_filter)
  finally show ?thesis .
qed

lemma section_of_annotate [simp]: "section_of (annotate idx p) = fst p"
  by (simp add: section_of_def annotate_def)

lemma score_annotate [simp]: "score (annotate idx p) = snd p"
  by (simp add: annotate_def)

lemma rank_annotate [simp]: "importance_rank (annotate idx p) = idx"
  by (simp add: annotate_def)

lemma length_upto_int: "length [1..int n] = n"
  by simp

lemma rank_sections_explicit:
  "\<exists>scores. compute_relevance_scores sections pers jb = Inr scores
     \<and> length scores = length sections
     \<and> rank_sections sections pers jb =
         Inr (map (\<lambda>(idx, p). annotate idx p)
               (zip [1..int (length sections)] (sort_desc snd (zip sections scores))))"
proof -
  obtain scores where s: "compute_relevance_scores sections pers jb = Inr scores"
    and l: "length scores = length sections"
    using relevance_scores_length[of sections pers jb] by auto
  have "length (sort_desc snd (zip sections scores)) = length sections"
    using l by (simp add: length_sort_desc)
  then have "rank_sections sections pers jb =
         Inr (map (\<lambda>(idx, p). annotate idx p)
               (zip [1..int (length sections)] (sort_desc snd (zip sections scores))))"
    using s l by (cases "sections = []") (simp_all add: rank_sections_def Let_def sort_desc_def)
  with s l show ?thesis by blast
qed

lemma map_annotate_zip:
  assumes "length is = length ps"
  shows "map importance_rank (map (\<lambda>(idx, p). annotate idx p) (zip is ps)) = is"
    and "map (\<lambda>r. (section_of r, score r)) (map (\<lambda>(idx, p). annotate idx p) (zip is ps)) = ps"
  using assms by (induction "is" ps rule: list_induct2) simp_all


lemma ranking_properties:
  fixes sections :: "doc_sect list" and scores :: "real list"
  assumes l: "length scores = length sections"
  defines "ranked \<equiv> map (\<lambda>(idx, p). annotate idx p)
               (zip [1..int (length sections)] (sort_desc snd (zip sections scores)))"
  shows "length ranked = length sections"
    and "map (\<lambda>r. (section_of r, score r)) ranked = sort_desc snd (zip sections scores)"
    and "mset (map (\<lambda>r. (section_of r, score r)) ranked) = mset (zip sections scores)"
    and "mset (map section_of ranked) = mset sections"
    and "map importance_rank ranked = [1..int (length sections)]"
    and "\<forall>i<length ranked. importance_rank (ranked ! i) = int i + 1"
    and "\<forall>i j. i < j \<and> j < length ranked \<longrightarrow> score (ranked ! j) \<le> score (ranked ! i)"
proof -
  let ?ps = "sort_desc snd (zip sections scores)"
  let ?is = "[1..int (length sections)]"
  have lp: "length ?ps = length sections" using l by (simp add: length_sort_desc)
  have li: "length ?is = length ?ps" using lp by simp
  show len: "length ranked = length sections" using lp by (simp add: ranked_def)
  show pairs: "map (\<lambda>r. (section_of r, score r)) ranked = ?ps"
    unfolding ranked_def by (rule map_annotate_zip(2)[OF li])
  then show "mset (map (\<lambda>r. (section_of r, score r)) ranked) = mset (zip sections scores)"
    by (simp add: mset_sort_desc)
  have "map section_of ranked = map fst (map (\<lambda>r. (section_of r, score r)) ranked)"
    by simp
  then have "map section_of ranked = map fst ?ps" unfolding pairs .
  then have "mset (map section_of ranked) = image_mset fst (mset ?ps)" by simp
  also have "\<dots> = image_mset fst (mset (zip sections scores))"
    by (simp only: mset_sort_desc)
  finally have "mset (map section_of ranked) = mset (map fst (zip sections scores))" by simp
  then show "mset (map section_of ranked) = mset sections" using l by simp
  show ranks: "map importance_rank ranked = ?is"
    unfolding ranked_def by (rule map_annotate_zip(1)[OF li])
  show "\<forall>i<length ranked. importance_rank (ranked ! i) = int i + 1"
  proof (intro allI impI)
    fix i assume i: "i < length ranked"
    then have "importance_rank (ranked ! i) = map importance_rank ranked ! i" by simp
    also have "\<dots> = ?is ! i" by (simp only: ranks)
    also have "\<dots> = 1 + int i" using i len by (intro nth_upto) simp
    finally show "importance_rank (ranked ! i) = int i + 1" by simp
  qed
  have "sorted_wrt (\<lambda>x y. snd y \<le> snd x) (map (\<lambda>r. (section_of r, score r)) ranked)"
    unfolding pairs by (rule sort_desc_nonincreasing)
  then have sw: "sorted_wrt (\<lambda>x y. score y \<le> score x) ranked"
    by (simp add: sorted_wrt_map)
  show "\<forall>i j. i < j \<and> j < length ranked \<longrightarrow> score (ranked ! j) \<le> score (ranked ! i)"
    using sorted_wrt_nth_less[OF sw] by blast
qed

text \<open>
  Claim C3. \<open>rank_sections\<close> returns the input sections, each once more with the score
  computed for it and a rank: the result is a permutation of the input paired with its
  scores, the ranks are 1, 2, ... up to the number of sections in the order of the result,
  and a section later in the result has a larger rank and a score not larger than an
  earlier one.
\<close>

theorem C3_ranking:
  "\<exists>scores ranked.
      compute_relevance_scores sections pers jb = Inr scores
    \<and> rank_sections sections pers jb = Inr ranked
    \<and> length ranked = length sections
    \<and> mset (map (\<lambda>r. (section_of r, score r)) ranked) = mset (zip sections scores)
    \<and> mset (map section_of ranked) = mset sections
    \<and> map importance_rank ranked = [1..int (length sections)]
    \<and> (\<forall>i j. i < j \<and> j < length ranked \<longrightarrow>
           importance_rank (ranked ! i) < importance_rank (ranked ! j)
           \<and> score (ranked ! j) \<le> score (ranked ! i))"
proof -
  obtain scores where s: "compute_relevance_scores sections pers jb = Inr scores"
    and l: "length scores = length sections"
    and r: "rank_sections sections pers jb =
         Inr (map (\<lambda>(idx, p). annotate idx p)
               (zip [1..int (length sections)] (sort_desc snd (zip sections scores))))"
    using rank_sections_explicit[of sections pers jb] by auto
  let ?ranked = "map (\<lambda>(idx, p). annotate idx p)
               (zip [1..int (length sections)] (sort_desc snd (zip sections scores)))"
  note p = ranking_properties[OF l]
  have "importance_rank (?ranked ! i) < importance_rank (?ranked ! j)
      \<and> score (?ranked ! j) \<le> score (?ranked ! i)" if "i < j" "j < length ?ranked" for i j
  proof -
    have "importance_rank (?ranked ! i) = int i + 1" using p(6) that by simp
    moreover have "importance_rank (?ranked ! j) = int j + 1" using p(6) that by simp
    moreover have "score (?ranked ! j) \<le> score (?ranked ! i)" using p(7) that by blast
    ultimately show ?thesis using that(1) by simp
  qed
  then have "\<forall>i j. i < j \<and> j < length ?ranked \<longrightarrow>
           importance_rank (?ranked ! i) < importance_rank (?ranked ! j)
           \<and> score (?ranked ! j) \<le> score (?ranked ! i)" by blast
  with s r p(1) p(3) p(4) p(5) show ?thesis by blast
qed

theorem C3_ranking_witness:
  "\<exists>ranked. rank_sections sections_example persona_example job_example = Inr ranked
     \<and> map importance_rank ranked = [1, 2]
     \<and> mset (map section_of ranked) = mset sections_example
     \<and> score (ranked ! 1) \<le> score (ranked ! 0)"
proof -
  have l: "length sections_example = 2" by (simp add: sections_example_def)
  have u: "[1..int 2] = [1, 2]" by (simp add: upto.simps)
  from C3_ranking[of sections_example persona_example job_example]
  obtain ranked where r: "rank_sections sections_example persona_example job_example = Inr ranked"
    and n: "length ranked = length sections_example"
    and m: "mset (map section_of ranked) = mset sections_example"
    and k: "map importance_rank ranked = [1..int (length sections_example)]"
    and o: "\<forall>i j. i < j \<and> j < length ranked \<longrightarrow>
           importance_rank (ranked ! i) < importance_rank (ranked ! j)
           \<and> score (ranked ! j) \<le> score (ranked ! i)"
    by blast
  have "(0::nat) < 1 \<and> 1 < length ranked" using n l by simp
  with o have "score (ranked ! 1) \<le> score (ranked ! 0)" by blast
  with r m k l u show ?thesis by auto
qed

text \<open>Two sections with the same text and title receive the same score.\<close>

lemma traverse_same:
  assumes "traverse f xs = Inr ys" and "i < length xs" and "j < length xs"
    and "f (xs ! i) = f (xs ! j)"
  shows "ys ! i = ys ! j"
  using traverse_nth[OF assms(1,2)] traverse_nth[OF assms(1,3)] assms(4) by simp

lemma normalise_same:
  assumes "normalise arr = Inr out" and "i < length arr" and "j < length arr"
    and "arr ! i = arr ! j"
  shows "out ! i = out ! j"
proof -
  have ne: "arr \<noteq> []" using assms(2) by auto
  show ?thesis
  proof (cases "\<forall>x\<in>set arr. x = hd arr")
    case True
    with ne have "normalise arr = Inr (replicate (length arr) 0)" by (rule normalise_constant)
    with assms(1) have "out = replicate (length arr) 0" by simp
    with assms(2,3) show ?thesis by simp
  next
    case False
    with ne have "normalise arr =
        Inr (map (\<lambda>x. (x - Min (set arr)) / (Max (set arr) - Min (set arr))) arr)"
      by (rule normalise_spread)
    with assms(1) have "out = map (\<lambda>x. (x - Min (set arr)) / (Max (set arr) - Min (set arr))) arr"
      by simp
    with assms(2,3,4) show ?thesis by simp
  qed
qed

lemma semantic_same:
  assumes "compute_semantic_similarity sections query = Inr raw"
    and "i < length sections" and "j < length sections"
    and "section_text (sections ! i) = section_text (sections ! j)"
  shows "raw ! i = raw ! j"
proof -
  let ?st = "map (\<lambda>sec. tokenize (section_text sec)) sections"
  obtain idf where idf: "compute_idf (tokenize query # ?st) = Inr idf"
    using compute_idf_total[of "tokenize query # ?st"] by auto
  obtain qtf where qtf: "compute_tf (tokenize query) = Inr qtf"
    using compute_tf_total[of "tokenize query"] by auto
  let ?f = "\<lambda>tokens. bind_r (compute_tf tokens)
      (\<lambda>tf. cosine_similarity (compute_tfidf_vector tf idf) (compute_tfidf_vector qtf idf))"
  have "compute_semantic_similarity sections query = traverse ?f ?st"
    unfolding compute_semantic_similarity_def Let_def idf bind_r_Inr qtf ..
  with assms(1) have t: "traverse ?f ?st = Inr raw" by simp
  show ?thesis
    by (rule traverse_same[OF t]) (simp_all add: assms)
qed

lemma persona_same:
  assumes "compute_persona_match sections persona_role = Inr raw"
    and "i < length sections" and "j < length sections"
    and "section_text (sections ! i) = section_text (sections ! j)"
  shows "raw ! i = raw ! j"
  using assms(1) unfolding compute_persona_match_def Let_def
  by (rule traverse_same) (simp_all add: assms)

lemma actionability_same:
  assumes "compute_actionability sections = Inr raw"
    and "i < length sections" and "j < length sections"
    and "section_text (sections ! i) = section_text (sections ! j)"
  shows "raw ! i = raw ! j"
  using assms(1) unfolding compute_actionability_def
  by (rule traverse_same) (simp_all add: assms)

lemma cross_doc_same:
  assumes "compute_cross_document_importance sections = Inr raw"
    and "i < length sections" and "j < length sections"
    and "section_title (sections ! i) = section_title (sections ! j)"
  shows "raw ! i = raw ! j"
proof -
  let ?fm = "map (\<lambda>(title, docs). (title, card docs)) (title_docs sections)"
  obtain mf where mf: "(if ?fm \<noteq> [] then py_max (map snd ?fm) else Inr 1) = Inr mf"
    using py_max_Max[of "map snd ?fm"] by (cases "?fm = []") auto
  let ?f = "\<lambda>sec :: doc_sect. let freq = dict_get ?fm (section_title sec) 1 in
      py_div (real freq) (real mf)"
  have "compute_cross_document_importance sections = traverse ?f sections"
    unfolding compute_cross_document_importance_def Let_def using mf by simp
  with assms(1) have t: "traverse ?f sections = Inr raw" by simp
  show ?thesis
    by (rule traverse_same[OF t]) (simp_all add: assms)
qed

lemma normalised_same:
  assumes "bind_r m normalise = Inr out" and "i < n" and "j < n"
    and "\<And>raw. m = Inr raw \<Longrightarrow> length raw = n \<and> raw ! i = raw ! j"
  shows "out ! i = out ! j"
proof -
  obtain raw where r: "m = Inr raw" and o: "normalise raw = Inr out"
    using assms(1) by (cases m) auto
  from assms(4)[OF r] have "length raw = n" and "raw ! i = raw ! j" by simp_all
  with o assms(2,3) show ?thesis by (intro normalise_same[of raw out i j]) simp_all
qed

lemma same_section_same_score:
  assumes "compute_relevance_scores sections pers jb = Inr scores"
    and i: "i < length sections" and j: "j < length sections"
    and tx: "section_text (sections ! i) = section_text (sections ! j)"
    and ti: "section_title (sections ! i) = section_title (sections ! j)"
  shows "scores ! i = scores ! j"
proof -
  let ?q = "str_strip (get_str (role pers) @ '' '' @ get_str (description pers) @ '' ''
             @ get_str (task jb))"
  let ?pr = "get_str (role pers) @ '' '' @ get_str (description pers)"
  from relevance_scores_explicit[of sections pers jb] assms(1)
  obtain sem pn act cross where
    sem: "bind_r (compute_semantic_similarity sections ?q) normalise = Inr sem"
    and pn: "bind_r (compute_persona_match sections ?pr) normalise = Inr pn"
    and act: "bind_r (compute_actionability sections) normalise = Inr act"
    and cross: "bind_r (compute_cross_document_importance sections) normalise = Inr cross"
    and v: "\<forall>k<length sections. scores ! k = 40 / 100 * sem ! k + 25 / 100 * pn ! k
                             + 20 / 100 * act ! k + 15 / 100 * cross ! k"
    by auto
  have "sem ! i = sem ! j"
  proof (rule normalised_same[OF sem i j])
    fix raw assume r: "compute_semantic_similarity sections ?q = Inr raw"
    then have "length raw = length sections"
      using semantic_total[of sections ?q] by auto
    then show "length raw = length sections \<and> raw ! i = raw ! j"
      using semantic_same[OF r i j tx] by simp
  qed
  moreover have "pn ! i = pn ! j"
  proof (rule normalised_same[OF pn i j])
    fix raw assume r: "compute_persona_match sections ?pr = Inr raw"
    then have "length raw = length sections"
      using persona_total[of sections ?pr] by auto
    then show "length raw = length sections \<and> raw ! i = raw ! j"
      using persona_same[OF r i j tx] by simp
  qed
  moreover have "act ! i = act ! j"
  proof (rule normalised_same[OF act i j])
    fix raw assume r: "compute_actionability sections = Inr raw"
    then have "length raw = length sections"
      using actionability_total[of sections] by auto
    then show "length raw = length sections \<and> raw ! i = raw ! j"
      using actionability_same[OF r i j tx] by simp
  qed
  moreover have "cross ! i = cross ! j"
  proof (rule normalised_same[OF cross i j])
    fix raw assume r: "compute_cross_document_importance sections = Inr raw"
    then have "length raw = length sections"
      using cross_doc_total[of sections] by auto
    then show "length raw = length sections \<and> raw ! i = raw ! j"
      using cross_doc_same[OF r i j ti] by simp
  qed
  ultimately show ?thesis using v i j by simp
qed


lemma filter_full:
  assumes "length (filter P xs) = length xs"
  shows "\<forall>x\<in>set xs. P x"
proof -
  have "length (filter P xs) + length (filter (\<lambda>x. \<not> P x) xs) = length xs"
    by (rule sum_length_filter_compl)
  with assms have "filter (\<lambda>x. \<not> P x) xs = []" by simp
  then show ?thesis by (simp add: filter_empty_conv)
qed

text \<open>
  Claim C4. The descending sort of \<open>rank_sections\<close> is stable: for every score value,
  the sections that received that score appear in the result in the order they had in the
  input.
\<close>

theorem C4_stable_ranking:
  "\<exists>scores ranked.
      compute_relevance_scores sections pers jb = Inr scores
    \<and> rank_sections sections pers jb = Inr ranked
    \<and> (\<forall>k. map section_of (filter (\<lambda>r. score r = k) ranked)
             = map fst (filter (\<lambda>p. snd p = k) (zip sections scores)))"
proof -
  obtain scores where s: "compute_relevance_scores sections pers jb = Inr scores"
    and l: "length scores = length sections"
    and r: "rank_sections sections pers jb =
         Inr (map (\<lambda>(idx, p). annotate idx p)
               (zip [1..int (length sections)] (sort_desc snd (zip sections scores))))"
    using rank_sections_explicit[of sections pers jb] by auto
  let ?ranked = "map (\<lambda>(idx, p). annotate idx p)
               (zip [1..int (length sections)] (sort_desc snd (zip sections scores)))"
  note p = ranking_properties(2)[OF l]
  have "map section_of (filter (\<lambda>r. score r = k) ?ranked)
      = map fst (filter (\<lambda>p. snd p = k) (zip sections scores))" for k
  proof -
    have "map section_of (filter (\<lambda>r. score r = k) ?ranked)
        = map fst (filter (\<lambda>p. snd p = k) (map (\<lambda>r. (section_of r, score r)) ?ranked))"
      by (simp add: filter_map comp_def)
    also have "\<dots> = map fst (filter (\<lambda>p. snd p = k) (sort_desc snd (zip sections scores)))"
      by (simp only: p)
    also have "\<dots> = map fst (filter (\<lambda>p. snd p = k) (zip sections scores))"
      by (simp only: sort_desc_stable)
    finally show ?thesis .
  qed
  with s r show ?thesis by blast
qed


theorem C4_stable_ranking_witness:
  "\<exists>ranked. rank_sections sections_tie persona_example job_example = Inr ranked
     \<and> score (ranked ! 0) = score (ranked ! 1)
     \<and> map section_of ranked = sections_tie"
proof -
  have l: "length sections_tie = 2" by (simp add: sections_tie_def)
  from C4_stable_ranking[of sections_tie persona_example job_example]
  obtain scores ranked
    where s: "compute_relevance_scores sections_tie persona_example job_example = Inr scores"
      and r: "rank_sections sections_tie persona_example job_example = Inr ranked"
      and st: "\<forall>k. map section_of (filter (\<lambda>r. score r = k) ranked)
             = map fst (filter (\<lambda>p. snd p = k) (zip sections_tie scores))"
    by blast
  have ls: "length scores = 2"
    using relevance_scores_length[of sections_tie persona_example job_example] s l by auto
  have lr: "length ranked = 2"
    using rank_sections_explicit[of sections_tie persona_example job_example] r s l
      ranking_properties(1)[of scores sections_tie] ls by auto
  have "scores ! 0 = scores ! 1"
    by (rule same_section_same_score[OF s]) (simp_all add: sections_tie_def)
  then have "\<forall>p\<in>set (zip sections_tie scores). snd p = scores ! 0"
    using l ls by (auto simp: set_zip less_Suc_eq numeral_2_eq_2)
  then have "filter (\<lambda>p. snd p = scores ! 0) (zip sections_tie scores) = zip sections_tie scores"
    by simp
  with st have m: "map section_of (filter (\<lambda>r. score r = scores ! 0) ranked) = sections_tie"
    using l ls by simp
  then have "length (filter (\<lambda>r. score r = scores ! 0) ranked) = length ranked"
    using l lr by (metis length_map)
  then have a: "\<forall>x\<in>set ranked. score x = scores ! 0" by (rule filter_full)
  then have "filter (\<lambda>r. score r = scores ! 0) ranked = ranked" by simp
  with m have "map section_of ranked = sections_tie" by simp
  moreover have "score (ranked ! 0) = score (ranked ! 1)" using a lr by simp
  ultimately show ?thesis using r by blast
qed

section \<open>Properties of the Refiner\<close>

lemma score_sentence_total: "\<exists>r. score_sentence s qt = Inr r"
proof (cases "str_split (clean_text s) = []")
  case True
  then show ?thesis by (simp add: score_sentence_def)
next
  case False
  then have "set (str_split (clean_text s)) \<noteq> {}" by simp
  then have "card (set (str_split (clean_text s))) \<noteq> 0" by simp
  then show ?thesis using False by (simp add: score_sentence_def Let_def py_div_def)
qed

lemma sentences_stripped:
  assumes "s \<in> set (split_into_sentences txt)"
  shows "20 < length s" and "s \<noteq> []" and "\<not> is_space (hd s)" and "\<not> is_space (last s)"
proof -
  from assms obtain p where s: "s = str_strip p" and l: "20 < length (str_strip p)"
    by (auto simp: split_into_sentences_def)
  show "20 < length s" using s l by simp
  then show ne: "s \<noteq> []" by auto
  show "\<not> is_space (hd s)" using ne unfolding s by (rule str_strip_hd)
  show "\<not> is_space (last s)" using ne unfolding s by (rule str_strip_last)
qed

lemma refine_text_fallback:
  "split_into_sentences txt = [] \<Longrightarrow> refine_text qt txt = Inr (take 300 (str_strip txt))"
  by (simp add: refine_text_def)

lemma refine_text_selection:
  assumes ne: "split_into_sentences txt \<noteq> []"
    and sc: "\<forall>s. score_sentence s qt = Inr (sc s)"
  shows "refine_text qt txt =
      Inr (str_join '' '' (map fst (take 2 (sort_desc snd
             (map (\<lambda>s. (s, sc s)) (split_into_sentences txt))))))"
proof -
  let ?ss = "split_into_sentences txt"
  let ?sorted = "sort_desc snd (map (\<lambda>s. (s, sc s)) ?ss)"
  let ?best = "map fst (take 2 ?sorted)"
  have "\<forall>s\<in>set ?ss. bind_r (score_sentence s qt) (\<lambda>v. Inr (s, v)) = Inr (s, sc s)"
    using sc by simp
  then have tr: "traverse (\<lambda>sent. bind_r (score_sentence sent qt) (\<lambda>v. Inr (sent, v))) ?ss
      = Inr (map (\<lambda>s. (s, sc s)) ?ss)"
    by (rule traverse_map)
  have sub: "set ?best \<subseteq> set ?ss"
  proof
    fix t assume "t \<in> set ?best"
    then obtain p where "p \<in> set (take 2 ?sorted)" and "t = fst p" by auto
    then have "p \<in> set ?sorted" by (auto dest: in_set_takeD)
    then have "p \<in># mset ?sorted" by simp
    then have "p \<in> set (map (\<lambda>s. (s, sc s)) ?ss)" by (simp add: mset_sort_desc)
    with \<open>t = fst p\<close> show "t \<in> set ?ss" by auto
  qed
  have "length ?sorted = length ?ss" by (simp add: length_sort_desc)
  then have "?best \<noteq> []" using ne by (cases ?sorted) auto
  moreover have "\<forall>l\<in>set ?best. l \<noteq> [] \<and> \<not> is_space (hd l) \<and> \<not> is_space (last l)"
    using sub sentences_stripped by blast
  ultimately have "str_strip (str_join '' '' ?best) = str_join '' '' ?best"
    by (rule str_strip_join_lines)
  then show ?thesis
    using ne tr by (simp add: refine_text_def Let_def)
qed

lemma best_two:
  fixes ss :: "string list" and sc :: "string \<Rightarrow> real"
  defines "best \<equiv> map fst (take 2 (sort_desc snd (map (\<lambda>s. (s, sc s)) ss)))"
  shows "length best = min 2 (length ss)"
    and "mset best \<subseteq># mset ss"
    and "\<forall>t\<in>set best. \<forall>u\<in>#(mset ss - mset best). sc u \<le> sc t"
proof -
  let ?sorted = "sort_desc snd (map (\<lambda>s. (s, sc s)) ss)"
  let ?rest = "map fst (drop 2 ?sorted)"
  have len: "length ?sorted = length ss" by (simp add: length_sort_desc)
  show "length best = min 2 (length ss)" using len by (simp add: best_def min.commute)
  have "mset (map fst ?sorted) = image_mset fst (mset (map (\<lambda>s. (s, sc s)) ss))"
    by (simp only: mset_map mset_sort_desc)
  also have "\<dots> = mset ss" by (simp add: multiset.map_comp comp_def)
  finally have all: "mset (map fst ?sorted) = mset ss" .
  have "map fst ?sorted = best @ ?rest"
    unfolding best_def by (simp only: map_append[symmetric] append_take_drop_id)
  with all have split: "mset ss = mset best + mset ?rest" by (metis mset_append)
  then show "mset best \<subseteq># mset ss" by simp
  have rest: "mset ss - mset best = mset ?rest" using split by simp
  have pair: "snd p = sc (fst p)" if "p \<in> set ?sorted" for p
  proof -
    from that have "p \<in># mset ?sorted" by simp
    then have "p \<in> set (map (\<lambda>s. (s, sc s)) ss)" by (simp add: mset_sort_desc)
    then show ?thesis by auto
  qed
  have "sorted_wrt (\<lambda>x y. snd y \<le> snd x) (take 2 ?sorted @ drop 2 ?sorted)"
    by (simp only: append_take_drop_id sort_desc_nonincreasing)
  then have ord: "\<forall>p\<in>set (take 2 ?sorted). \<forall>q\<in>set (drop 2 ?sorted). snd q \<le> snd p"
    unfolding sorted_wrt_append by blast
  show "\<forall>t\<in>set best. \<forall>u\<in>#(mset ss - mset best). sc u \<le> sc t"
  proof (intro ballI)
    fix t u assume t: "t \<in> set best" and u: "u \<in># mset ss - mset best"
    from t obtain p where p: "p \<in> set (take 2 ?sorted)" "t = fst p"
      unfolding best_def by auto
    from u have "u \<in> set ?rest" unfolding rest by simp
    then obtain q where q: "q \<in> set (drop 2 ?sorted)" "u = fst q" by auto
    have "p \<in> set ?sorted" using p(1) by (rule in_set_takeD)
    moreover have "q \<in> set ?sorted" using q(1) by (rule in_set_dropD)
    ultimately have "snd p = sc t" and "snd q = sc u" using pair p(2) q(2) by simp_all
    with ord p(1) q(1) show "sc u \<le> sc t" by force
  qed
qed


lemma py_take_length_le: "length (py_take n xs) \<le> length xs"
  by (simp add: py_take_def)

lemma split_parts_nonempty: "split_parts_from cur s \<noteq> []"
  by (induction cur s rule: split_parts_from.induct) auto

lemma split_parts_first:
  "\<exists>t. hd (split_parts_from cur s) = rev cur @ t"
  by (induction cur s rule: split_parts_from.induct) auto

lemma boundary_snoc:
  assumes "\<forall>j. \<not> boundary_at (rev cur) j"
    and "\<not> (is_space c \<and> cur \<noteq> [] \<and> is_sentence_end (hd cur))"
  shows "\<forall>j. \<not> boundary_at (rev (c # cur)) j"
proof (intro allI notI)
  fix j assume b: "boundary_at (rev (c # cur)) j"
  then have j: "Suc j < Suc (length cur)" by (simp add: boundary_at_def)
  show False
  proof (cases "Suc j < length cur")
    case True
    then have "boundary_at (rev cur) j"
      using b by (simp add: boundary_at_def nth_append)
    with assms(1) show False by blast
  next
    case False
    with j have e: "Suc j = length cur" by simp
    then have ne: "cur \<noteq> []" by auto
    have "j = length (rev cur) - 1" using e by simp
    moreover have "rev cur \<noteq> []" using ne by simp
    ultimately have "rev cur ! j = last (rev cur)"
      using last_conv_nth[of "rev cur"] by simp
    then have "(rev (c # cur)) ! j = last (rev cur)"
      using e by (simp add: nth_append)
    then have "(rev (c # cur)) ! j = hd cur" using ne by (simp add: last_rev)
    moreover have "(rev (c # cur)) ! Suc j = c" using e by (simp add: nth_append)
    ultimately show False using b assms(2) ne by (simp add: boundary_at_def)
  qed
qed

lemma split_parts_spec:
  assumes "\<forall>j. \<not> boundary_at (rev cur) j"
  shows "\<exists>seps. length (split_parts_from cur s) = Suc (length seps)
        \<and> interleave (split_parts_from cur s) seps = rev cur @ s
        \<and> (\<forall>w\<in>set seps. w \<noteq> [] \<and> (\<forall>c\<in>set w. is_space c))
        \<and> (\<forall>i<length seps. split_parts_from cur s ! i \<noteq> []
               \<and> is_sentence_end (last (split_parts_from cur s ! i))
               \<and> (split_parts_from cur s ! Suc i = []
                    \<or> \<not> is_space (hd (split_parts_from cur s ! Suc i))))
        \<and> (\<forall>p\<in>set (split_parts_from cur s). \<forall>j. \<not> boundary_at p j)"
  using assms
proof (induction cur s rule: split_parts_from.induct)
  case (1 cur)
  show ?case by (rule exI[of _ "[]"]) (use 1 in simp)
next
  case (2 cur c cs)
  show ?case
  proof (cases "is_space c \<and> cur \<noteq> [] \<and> is_sentence_end (hd cur)")
    case True
    let ?rest = "dropWhile is_space cs"
    let ?w = "c # takeWhile is_space cs"
    let ?ps = "split_parts_from [] ?rest"
    have "\<forall>j. \<not> boundary_at (rev []) j" by (simp add: boundary_at_def)
    from 2(1)[OF True this] obtain seps where
      l: "length ?ps = Suc (length seps)"
      and i: "interleave ?ps seps = ?rest"
      and w: "\<forall>w\<in>set seps. w \<noteq> [] \<and> (\<forall>c\<in>set w. is_space c)"
      and m: "\<forall>i<length seps. ?ps ! i \<noteq> [] \<and> is_sentence_end (last (?ps ! i))
               \<and> (?ps ! Suc i = [] \<or> \<not> is_space (hd (?ps ! Suc i)))"
      and b: "\<forall>p\<in>set ?ps. \<forall>j. \<not> boundary_at p j"
      by auto
    have eq: "split_parts_from cur (c # cs) = rev cur # ?ps" using True by simp
    obtain p ps' where pp: "?ps = p # ps'" using split_parts_nonempty[of "[]" ?rest] by (cases ?ps) auto
    have first: "p = [] \<or> \<not> is_space (hd p)"
    proof (cases ?rest)
      case Nil
      then have "?ps = [[]]" by (simp only: split_parts_from.simps rev.simps)
      then show ?thesis using pp by simp
    next
      case (Cons d ds)
      then have "\<not> is_space d" by (metis hd_dropWhile list.sel(1) list.distinct(1))
      moreover obtain t where "hd (split_parts_from [d] ds) = rev [d] @ t"
        using split_parts_first[of "[d]" ds] by blast
      ultimately show ?thesis using pp Cons by simp
    qed
    have ws: "?w \<noteq> [] \<and> (\<forall>c\<in>set ?w. is_space c)"
      using True by (auto dest: set_takeWhileD)
    have tx: "interleave (rev cur # ?ps) (?w # seps) = rev cur @ c # cs"
      using i pp by simp
    have cond: "\<forall>i<length (?w # seps). (rev cur # ?ps) ! i \<noteq> []
               \<and> is_sentence_end (last ((rev cur # ?ps) ! i))
               \<and> ((rev cur # ?ps) ! Suc i = [] \<or> \<not> is_space (hd ((rev cur # ?ps) ! Suc i)))"
    proof (intro allI impI)
      fix k assume k: "k < length (?w # seps)"
      show "(rev cur # ?ps) ! k \<noteq> []
               \<and> is_sentence_end (last ((rev cur # ?ps) ! k))
               \<and> ((rev cur # ?ps) ! Suc k = [] \<or> \<not> is_space (hd ((rev cur # ?ps) ! Suc k)))"
      proof (cases k)
        case 0
        then show ?thesis using True first pp by (simp add: last_rev)
      next
        case (Suc n)
        then have "n < length seps" using k by simp
        with m Suc show ?thesis by simp
      qed
    qed
    have nb: "\<forall>p\<in>set (rev cur # ?ps). \<forall>j. \<not> boundary_at p j"
      using b 2(3) by simp
    show ?thesis
      unfolding eq
      by (rule exI[of _ "?w # seps"]) (use l tx ws w cond nb in simp)
  next
    case False
    have nb: "\<forall>j. \<not> boundary_at (rev (c # cur)) j"
      using 2(3) False by (rule boundary_snoc)
    have eq: "split_parts_from cur (c # cs) = split_parts_from (c # cur) cs"
      using False by (subst split_parts_from.simps) (simp only: if_False)
    from 2(2)[OF False nb] show ?thesis unfolding eq by simp
  qed
qed

lemma split_parts_sentence_split: "sentence_split body (split_parts_from [] body)"
proof -
  have "\<forall>j. \<not> boundary_at (rev []) j" by (simp add: boundary_at_def)
  from split_parts_spec[OF this, of body] show ?thesis
    unfolding sentence_split_def by simp
qed


lemma sentences_from_split:
  "\<exists>parts. sentence_split body parts
     \<and> split_into_sentences body = map str_strip (filter (\<lambda>p. 20 < length (str_strip p)) parts)"
  using split_parts_sentence_split[of body] unfolding split_into_sentences_def by blast

text \<open>
  Claim C9. For every section that \<open>refine_subsections\<close> processes (the first
  \<open>top_n\<close> of its input): the text is cut at every run of whitespace that follows a
  period, exclamation mark or question mark, and nowhere else; the usable sentences are
  the stripped pieces longer than 20 characters, in order. When there is none,
  \<open>refined_text\<close> is the first 300 characters of the stripped section text, so at most
  300 characters; when there is one or more, \<open>refined_text\<close> is the first one or two
  sentences of the stable descending sort by score, joined by a single space: two when
  there are two, and no sentence left out scores higher than a chosen one.
\<close>

theorem C9_refined_text:
  fixes ranked_sections :: "ranked_sect list"
  shows "\<exists>excerpts sc.
      refine_subsections ranked_sections pers jb top_n = Inr excerpts
    \<and> length excerpts = length (py_take top_n ranked_sections)
    \<and> (\<forall>s. score_sentence s (query_terms_of pers jb) = Inr (sc s))
    \<and> (\<forall>i<length excerpts.
          let txt = section_text (py_take top_n ranked_sections ! i);
              sentences = split_into_sentences txt;
              refined = refined_text (excerpts ! i) in
          (\<exists>parts. sentence_split txt parts
             \<and> sentences = map str_strip (filter (\<lambda>p. 20 < length (str_strip p)) parts))
          \<and> (\<forall>s\<in>set sentences. 20 < length s)
          \<and> (sentences = [] \<longrightarrow> refined = take 300 (str_strip txt) \<and> length refined \<le> 300)
          \<and> (sentences \<noteq> [] \<longrightarrow>
               (\<exists>best. refined = str_join '' '' best
                  \<and> best = map fst (take 2 (sort_desc snd (map (\<lambda>s. (s, sc s)) sentences)))
                  \<and> length best = min 2 (length sentences)
                  \<and> mset best \<subseteq># mset sentences
                  \<and> (\<forall>t\<in>set best. \<forall>u\<in>#(mset sentences - mset best). sc u \<le> sc t))))"
proof -
  let ?qt = "query_terms_of pers jb"
  let ?top = "py_take top_n ranked_sections"
  have "\<forall>s. \<exists>r. score_sentence s ?qt = Inr r" using score_sentence_total by blast
  then have "\<exists>sc. \<forall>s. score_sentence s ?qt = Inr (sc s)" by (rule choice)
  then obtain sc where sc: "\<forall>s. score_sentence s ?qt = Inr (sc s)" by blast
  let ?best = "\<lambda>body. map fst (take 2 (sort_desc snd
             (map (\<lambda>s. (s, sc s)) (split_into_sentences body))))"
  let ?R = "\<lambda>body. if split_into_sentences body = [] then take 300 (str_strip body)
                 else str_join '' '' (?best body)"
  have rt: "refine_text ?qt body = Inr (?R body)" for body
    using refine_text_fallback[of body ?qt] refine_text_selection[of body ?qt sc] sc
    by (cases "split_into_sentences body = []") simp_all
  let ?g = "\<lambda>sec :: ranked_sect. \<lparr>excerpt_document = document sec,
      refined_text = ?R (section_text sec), excerpt_page_number = page_number sec\<rparr>"
  have "\<forall>sec\<in>set ?top. bind_r (refine_text ?qt (section_text sec)) (\<lambda>refined.
            Inr \<lparr>excerpt_document = document sec, refined_text = refined,
                 excerpt_page_number = page_number sec\<rparr>) = Inr (?g sec)"
    by (simp add: rt)
  then have "traverse (\<lambda>sec. bind_r (refine_text ?qt (section_text sec)) (\<lambda>refined.
            Inr \<lparr>excerpt_document = document sec, refined_text = refined,
                 excerpt_page_number = page_number sec\<rparr>)) ?top = Inr (map ?g ?top)"
    by (rule traverse_map)
  then have res: "refine_subsections ranked_sections pers jb top_n = Inr (map ?g ?top)"
    by (simp add: refine_subsections_def Let_def)
  have each: "let txt = section_text (?top ! i);
              sentences = split_into_sentences txt;
              refined = refined_text (map ?g ?top ! i) in
          (\<exists>parts. sentence_split txt parts
             \<and> sentences = map str_strip (filter (\<lambda>p. 20 < length (str_strip p)) parts))
          \<and> (\<forall>s\<in>set sentences. 20 < length s)
          \<and> (sentences = [] \<longrightarrow> refined = take 300 (str_strip txt) \<and> length refined \<le> 300)
          \<and> (sentences \<noteq> [] \<longrightarrow>
               (\<exists>best. refined = str_join '' '' best
                  \<and> best = map fst (take 2 (sort_desc snd (map (\<lambda>s. (s, sc s)) sentences)))
                  \<and> length best = min 2 (length sentences)
                  \<and> mset best \<subseteq># mset sentences
                  \<and> (\<forall>t\<in>set best. \<forall>u\<in>#(mset sentences - mset best). sc u \<le> sc t)))"
    if i: "i < length (map ?g ?top)" for i
  proof -
    let ?body = "section_text (?top ! i)"
    have r: "refined_text (map ?g ?top ! i) = ?R ?body" using i by simp
    have p: "\<exists>parts. sentence_split ?body parts
             \<and> split_into_sentences ?body = map str_strip (filter (\<lambda>p. 20 < length (str_strip p)) parts)"
      by (rule sentences_from_split)
    have a: "\<forall>s\<in>set (split_into_sentences ?body). 20 < length s"
      using sentences_stripped(1) by blast
    have b: "?R ?body = take 300 (str_strip ?body) \<and> length (?R ?body) \<le> 300"
      if "split_into_sentences ?body = []"
      using that by simp
    have c: "\<exists>best. ?R ?body = str_join '' '' best
                  \<and> best = ?best ?body
                  \<and> length best = min 2 (length (split_into_sentences ?body))
                  \<and> mset best \<subseteq># mset (split_into_sentences ?body)
                  \<and> (\<forall>t\<in>set best. \<forall>u\<in>#(mset (split_into_sentences ?body) - mset best). sc u \<le> sc t)"
      if "split_into_sentences ?body \<noteq> []"
    proof -
      have "?R ?body = str_join '' '' (?best ?body)" using that by simp
      with best_two[of sc "split_into_sentences ?body"] show ?thesis by blast
    qed
    from p a b c show ?thesis unfolding Let_def r by blast
  qed
  have "length (map ?g ?top) = length ?top" by simp
  with res sc each show ?thesis by blast
qed


theorem C9_refined_text_witness:
  "\<exists>excerpts. refine_subsections ranked_example persona_example job_example 5 = Inr excerpts
     \<and> length excerpts = 2
     \<and> split_into_sentences (section_text (ranked_example ! 0)) = []
     \<and> refined_text (excerpts ! 0) = ''Short one. tiny.''
     \<and> split_into_sentences (section_text (ranked_example ! 1)) = [''This is a long sentence about optimizing systems.'', ''Another fairly long sentence is here!'', ''And a third long sentence about systems only.'']
     \<and> refined_text (excerpts ! 1) = ''This is a long sentence about optimizing systems. And a third long sentence about systems only.''"
proof -
  let ?qt = "query_terms_of persona_example job_example"
  have t: "py_take 5 ranked_example = ranked_example"
    by (simp add: py_take_def ranked_example_def)
  have l: "length ranked_example = 2" by (simp add: ranked_example_def)
  have s0: "split_into_sentences (section_text (ranked_example ! 0)) = []"
    by code_simp
  have f0: "take 300 (str_strip (section_text (ranked_example ! 0))) = ''Short one. tiny.''"
    by code_simp
  have s1: "split_into_sentences (section_text (ranked_example ! 1)) = [''This is a long sentence about optimizing systems.'', ''Another fairly long sentence is here!'', ''And a third long sentence about systems only.'']"
    by code_simp
  have v1: "score_sentence ''This is a long sentence about optimizing systems.'' ?qt = Inr (1 / 8)"
    by code_simp
  have v2: "score_sentence ''Another fairly long sentence is here!'' ?qt = Inr 0"
    by code_simp
  have v3: "score_sentence ''And a third long sentence about systems only.'' ?qt = Inr (1 / 8)"
    by code_simp
  have srt: "sort_desc snd [(a, 1 / 8), (b, 0), (c, 1 / 8 :: real)] = [(a, 1 / 8), (c, 1 / 8), (b, 0)]"
    for a b c :: string
    by (simp add: sort_desc_def)
  have j: "str_join '' '' [''This is a long sentence about optimizing systems.'', ''And a third long sentence about systems only.''] = ''This is a long sentence about optimizing systems. And a third long sentence about systems only.''"
    by simp
  from C9_refined_text[of ranked_example persona_example job_example 5]
  obtain excerpts sc where all:
    "refine_subsections ranked_example persona_example job_example 5 = Inr excerpts
    \<and> length excerpts = length (py_take 5 ranked_example)
    \<and> (\<forall>s. score_sentence s (query_terms_of persona_example job_example) = Inr (sc s))
    \<and> (\<forall>i<length excerpts.
          let txt = section_text (py_take 5 ranked_example ! i);
              sentences = split_into_sentences txt;
              refined = refined_text (excerpts ! i) in
          (\<exists>parts. sentence_split txt parts
             \<and> sentences = map str_strip (filter (\<lambda>p. 20 < length (str_strip p)) parts))
          \<and> (\<forall>s\<in>set sentences. 20 < length s)
          \<and> (sentences = [] \<longrightarrow> refined = take 300 (str_strip txt) \<and> length refined \<le> 300)
          \<and> (sentences \<noteq> [] \<longrightarrow>
               (\<exists>best. refined = str_join '' '' best
                  \<and> best = map fst (take 2 (sort_desc snd (map (\<lambda>s. (s, sc s)) sentences)))
                  \<and> length best = min 2 (length sentences)
                  \<and> mset best \<subseteq># mset sentences
                  \<and> (\<forall>t\<in>set best. \<forall>u\<in>#(mset sentences - mset best). sc u \<le> sc t))))"
    by (elim exE)
  then have r: "refine_subsections ranked_example persona_example job_example 5 = Inr excerpts"
    and n: "length excerpts = length ranked_example"
    and sc: "\<forall>s. score_sentence s ?qt = Inr (sc s)"
    and e: "\<forall>i<length excerpts.
          let txt = section_text (ranked_example ! i);
              sentences = split_into_sentences txt;
              refined = refined_text (excerpts ! i) in
          (\<exists>parts. sentence_split txt parts
             \<and> sentences = map str_strip (filter (\<lambda>p. 20 < length (str_strip p)) parts))
          \<and> (\<forall>s\<in>set sentences. 20 < length s)
          \<and> (sentences = [] \<longrightarrow> refined = take 300 (str_strip txt) \<and> length refined \<le> 300)
          \<and> (sentences \<noteq> [] \<longrightarrow>
               (\<exists>best. refined = str_join '' '' best
                  \<and> best = map fst (take 2 (sort_desc snd (map (\<lambda>s. (s, sc s)) sentences)))
                  \<and> length best = min 2 (length sentences)
                  \<and> mset best \<subseteq># mset sentences
                  \<and> (\<forall>t\<in>set best. \<forall>u\<in>#(mset sentences - mset best). sc u \<le> sc t)))"
    unfolding t by (rule conjunct1, rule conjunct1[OF conjunct2],
      rule conjunct1[OF conjunct2[OF conjunct2]], rule conjunct2[OF conjunct2[OF conjunct2]])
  have c1: "sc ''This is a long sentence about optimizing systems.'' = 1 / 8"
    using sc[rule_format, of "''This is a long sentence about optimizing systems.''"] unfolding v1 by simp
  have c2: "sc ''Another fairly long sentence is here!'' = 0"
    using sc[rule_format, of "''Another fairly long sentence is here!''"] unfolding v2 by simp
  have c3: "sc ''And a third long sentence about systems only.'' = 1 / 8"
    using sc[rule_format, of "''And a third long sentence about systems only.''"] unfolding v3 by simp
  have i0: "0 < length excerpts" and i1: "1 < length excerpts" using n l by simp_all
  note at0 = e[rule_format, OF i0, unfolded Let_def]
  note at1 = e[rule_format, OF i1, unfolded Let_def]
  from at0[THEN conjunct2, THEN conjunct2, THEN conjunct1, rule_format, OF s0]
  have "refined_text (excerpts ! 0) = take 300 (str_strip (section_text (ranked_example ! 0)))"
    by (rule conjunct1)
  then have e0: "refined_text (excerpts ! 0) = ''Short one. tiny.''" unfolding f0 .
  have ne: "split_into_sentences (section_text (ranked_example ! 1)) \<noteq> []"
    unfolding s1 by (rule list.distinct(2))
  from at1[THEN conjunct2, THEN conjunct2, THEN conjunct2, rule_format, OF ne]
  obtain best where b1: "refined_text (excerpts ! 1) = str_join '' '' best"
    and b2: "best = map fst (take 2 (sort_desc snd (map (\<lambda>s. (s, sc s))
                  (split_into_sentences (section_text (ranked_example ! 1))))))"
    by (elim exE conjE)
  have "map (\<lambda>s. (s, sc s)) [''This is a long sentence about optimizing systems.'', ''Another fairly long sentence is here!'', ''And a third long sentence about systems only.''] = [(''This is a long sentence about optimizing systems.'', 1 / 8), (''Another fairly long sentence is here!'', 0), (''And a third long sentence about systems only.'', 1 / 8)]"
    by (simp only: list.map c1 c2 c3)
  then have "best = map fst (take 2 (sort_desc snd [(''This is a long sentence about optimizing systems.'', 1 / 8), (''Another fairly long sentence is here!'', 0), (''And a third long sentence about systems only.'', 1 / 8 :: real)]))"
    using b2 unfolding s1 by (simp only:)
  then have "best = [''This is a long sentence about optimizing systems.'', ''And a third long sentence about systems only.'']"
    unfolding srt by simp
  with b1 have "refined_text (excerpts ! 1) = str_join '' '' [''This is a long sentence about optimizing systems.'', ''And a third long sentence about systems only.'']" by (simp only:)
  then have e1: "refined_text (excerpts ! 1) = ''This is a long sentence about optimizing systems. And a third long sentence about systems only.''" unfolding j .
  have n2: "length excerpts = 2" using n l by simp
  show ?thesis
    by (rule exI[of _ excerpts]) (intro conjI r n2 s0 e0 s1 e1)
qed

end
